theory Spec2Isabelle
  imports Complex_Main "HOL-Library.Word"
begin

section \<open>Data model\<close>

text \<open>
  A FileRecord as the parsers hand it to \<^verbatim>\<open>importRepo\<close> (tree-to-graph.js): a JSON
  object, so every field may be absent. \<open>f_description\<close> and \<open>f_id\<close> are the two fields
  the normalisation callback assigns.
\<close>

record file_record =
  f_path :: "string option"
  f_importFiles :: "string list option"
  f_externalImports :: "string list option"
  f_name :: "string option"
  f_loc :: "int option"
  f_description :: "string option"
  f_id :: "string option"

text \<open>
  A \<^verbatim>\<open>:File\<close> node of the graph store. \<open>nid\<close> is the store's internal identifier
  (\<^verbatim>\<open>id(f)\<close> in the queries); every property is optional, as in the store, where
  assigning null removes the property.
\<close>

record node =
  nid :: nat
  n_path :: "string option"
  n_externalImports :: "string list option"
  n_projectUuid :: "string option"
  n_name :: "string option"
  n_loc :: "int option"
  n_description :: "string option"
  n_id :: "string option"
  n_importCount :: "nat option"
  n_importedByCount :: "nat option"
  n_clusterId :: "nat option"

text \<open>A named in-memory projection of the graph-algorithm library's catalogue.\<close>

record projection =
  g_nodes :: "nat list"
  g_rels :: "(nat \<times> nat) list"

text \<open>
  The store: its \<^verbatim>\<open>:File\<close> nodes in creation order, the \<^verbatim>\<open>:IMPORTS\<close>
  relationships as pairs of internal identifiers (source, target), the next free
  internal identifier, the properties of \<^verbatim>\<open>:File\<close> that carry a uniqueness
  constraint, the labels and the relationship types the database has a token for, and
  the projection catalogue. \<open>online\<close> says whether the store answers; a statement sent
  to a store that does not answer fails. Every node of the model is a \<^verbatim>\<open>:File\<close>
  node and every relationship an \<^verbatim>\<open>:IMPORTS\<close> relationship, the only kinds the
  importer writes. A token is made when the first node of a label or the first
  relationship of a type is created, or when a constraint is declared on the label, and
  it stays. The rows of one statement are processed one after the other.
\<close>

record store =
  online :: bool
  nodes :: "node list"
  edges :: "(nat \<times> nat) list"
  next_id :: nat
  constraints :: "string list"
  labels :: "string list"
  rel_types :: "string list"
  catalog :: "(string \<times> projection) list"

datatype error =
    ServiceUnavailable
  | NullMergeProperty string
  | ConstraintCreationFailed string
  | ConstraintViolation string
  | LabelNotFound string
  | RelationshipTypeNotFound string
  | GraphAlreadyExists string
  | GraphNotFound string

definition empty_store :: store where
  "empty_store = \<lparr>online = True, nodes = [], edges = [], next_id = 0,
                   constraints = [], labels = [], rel_types = [], catalog = []\<rparr>"

definition add_token :: "string \<Rightarrow> string list \<Rightarrow> string list" where
  "add_token t ts = (if t \<in> set ts then ts else ts @ [t])"

section \<open>Statements and transactions\<close>

text \<open>
  \<^verbatim>\<open>session.executeWrite(work)\<close> and \<^verbatim>\<open>session.run(query)\<close>: the work runs
  against the store when it answers; a failure inside aborts the transaction, so an
  \<open>Inl\<close> carries no store and the caller keeps the one it had.
\<close>

definition executeWrite :: "(store \<Rightarrow> error + store) \<Rightarrow> store \<Rightarrow> error + store" where
  "executeWrite work db = (if online db then work db else Inl ServiceUnavailable)"

text \<open>\<^verbatim>\<open>UNWIND $rows AS r ...\<close>: the rest of the statement runs once per row, in order.\<close>

fun unwind :: "('a \<Rightarrow> store \<Rightarrow> error + store) \<Rightarrow> 'a list \<Rightarrow> store \<Rightarrow> error + store" where
  "unwind row [] db = Inr db"
| "unwind row (r # rs) db =
     (case row r db of Inl e \<Rightarrow> Inl e | Inr db' \<Rightarrow> unwind row rs db')"

definition has_path :: "string \<Rightarrow> store \<Rightarrow> bool" where
  "has_path q db = (\<exists>n \<in> set (nodes db). n_path n = Some q)"

definition new_node :: "nat \<Rightarrow> string \<Rightarrow> node" where
  "new_node i q = \<lparr>nid = i, n_path = Some q, n_externalImports = None,
     n_projectUuid = None, n_name = None, n_loc = None, n_description = None,
     n_id = None, n_importCount = None, n_importedByCount = None, n_clusterId = None\<rparr>"

section \<open>Step 1: merge the File nodes (tree-to-graph.js, lines 52-66)\<close>

text \<open>\<^verbatim>\<open>MERGE (f:File {path: file.path})\<close>: match the nodes of that path, create one if none.\<close>

definition merge_file :: "string \<Rightarrow> store \<Rightarrow> store" where
  "merge_file q db =
     (if has_path q db then db
      else db\<lparr>nodes := nodes db @ [new_node (next_id db) q], next_id := Suc (next_id db),
              labels := add_token ''File'' (labels db)\<rparr>)"

text \<open>The \<^verbatim>\<open>SET\<close> clause of step 1: six properties, each overwritten from the record.\<close>

definition set_file_props :: "file_record \<Rightarrow> string \<Rightarrow> node \<Rightarrow> node" where
  "set_file_props file projectUuid f =
     f\<lparr>n_externalImports := f_externalImports file,
       n_projectUuid := Some projectUuid,
       n_name := f_name file,
       n_loc := f_loc file,
       n_description := f_description file,
       n_id := f_id file\<rparr>"

text \<open>The \<^verbatim>\<open>SET\<close> clause reaches the nodes bound to \<open>f\<close>: those of the merged path.\<close>

definition set_on_path :: "string \<Rightarrow> file_record \<Rightarrow> string \<Rightarrow> node \<Rightarrow> node" where
  "set_on_path q file projectUuid f =
     (if n_path f = Some q then set_file_props file projectUuid f else f)"

text \<open>
  The uniqueness constraint on \<^verbatim>\<open>File.id\<close>, once declared, is checked when
  \<^verbatim>\<open>SET f.id = file.id\<close> writes a value: the write is refused when a node other than
  the one written holds that value already, be it a node of another path or a second
  node of the merged path, which the same \<^verbatim>\<open>SET\<close> would give the value too. Writing
  null removes the property and is never refused. The constraint on \<^verbatim>\<open>File.path\<close>
  cannot be violated here: \<^verbatim>\<open>MERGE\<close> creates a node only for a path no node has, and
  no statement of the importer changes a path.
\<close>

definition violates_unique_id :: "string \<Rightarrow> file_record \<Rightarrow> store \<Rightarrow> bool" where
  "violates_unique_id q file db =
     (case f_id file of
        None \<Rightarrow> False
      | Some v \<Rightarrow>
          ''id'' \<in> set (constraints db)
          \<and> ((\<exists>g \<in> set (nodes db). n_path g \<noteq> Some q \<and> n_id g = Some v)
               \<or> 1 < length (filter (\<lambda>g. n_path g = Some q) (nodes db))))"

text \<open>
  One row of step 1. A record without \<open>path\<close> makes \<^verbatim>\<open>MERGE\<close> fail on the null
  property; an id that another node holds makes \<^verbatim>\<open>SET\<close> fail on the constraint.
\<close>

definition upsert_file :: "string \<Rightarrow> file_record \<Rightarrow> store \<Rightarrow> error + store" where
  "upsert_file projectUuid file db =
     (case f_path file of
        None \<Rightarrow> Inl (NullMergeProperty ''path'')
      | Some q \<Rightarrow>
          (let db1 = merge_file q db
           in if violates_unique_id q file db1 then Inl (ConstraintViolation ''id'')
              else Inr (db1\<lparr>nodes := map (set_on_path q file projectUuid) (nodes db1)\<rparr>)))"

definition upsertNodes :: "file_record list \<Rightarrow> string \<Rightarrow> store \<Rightarrow> error + store" where
  "upsertNodes files projectUuid db = executeWrite (unwind (upsert_file projectUuid) files) db"

section \<open>Step 2: merge the IMPORTS relationships (lines 69-93)\<close>

text \<open>The loop of lines 69-75 that flattens the records into \<^verbatim>\<open>{from, to}\<close> pairs.\<close>

fun relPairs :: "file_record list \<Rightarrow> (string option \<times> string) list" where
  "relPairs [] = []"
| "relPairs (file # files) =
     (case f_importFiles file of
        None \<Rightarrow> relPairs files
      | Some imps \<Rightarrow>
          (if length imps = 0 then relPairs files
           else map (\<lambda>imp. (f_path file, imp)) imps @ relPairs files))"

definition coalesce :: "string option \<Rightarrow> string \<Rightarrow> string option" where
  "coalesce v d = (case v of None \<Rightarrow> Some d | Some x \<Rightarrow> Some x)"

text \<open>
  \<^verbatim>\<open>MERGE (a:File {path: q}) ON CREATE SET a.projectUuid = $projectUuid
  ON MATCH SET a.projectUuid = coalesce(a.projectUuid, $projectUuid)\<close>.
\<close>

definition on_match :: "string \<Rightarrow> string \<Rightarrow> node \<Rightarrow> node" where
  "on_match projectUuid q a =
     (if n_path a = Some q
      then a\<lparr>n_projectUuid := coalesce (n_projectUuid a) projectUuid\<rparr> else a)"

definition merge_endpoint :: "string \<Rightarrow> string \<Rightarrow> store \<Rightarrow> store" where
  "merge_endpoint projectUuid q db =
     (if has_path q db
      then db\<lparr>nodes := map (on_match projectUuid q) (nodes db)\<rparr>
      else db\<lparr>nodes := nodes db @ [(new_node (next_id db) q)\<lparr>n_projectUuid := Some projectUuid\<rparr>],
              next_id := Suc (next_id db),
              labels := add_token ''File'' (labels db)\<rparr>)"

definition ids_with_path :: "string \<Rightarrow> store \<Rightarrow> nat list" where
  "ids_with_path q db = map nid (filter (\<lambda>n. n_path n = Some q) (nodes db))"

text \<open>\<^verbatim>\<open>MERGE (a)-[:IMPORTS]->(b)\<close> for one bound pair of nodes.\<close>

definition merge_rel :: "nat \<times> nat \<Rightarrow> store \<Rightarrow> store" where
  "merge_rel e db =
     (if e \<in> set (edges db) then db
      else db\<lparr>edges := edges db @ [e], rel_types := add_token ''IMPORTS'' (rel_types db)\<rparr>)"

text \<open>One row of step 2: both endpoints are merged, then the relationship between them.\<close>

definition upsert_pair :: "string \<Rightarrow> string option \<times> string \<Rightarrow> store \<Rightarrow> error + store" where
  "upsert_pair projectUuid p db =
     (case fst p of
        None \<Rightarrow> Inl (NullMergeProperty ''path'')
      | Some qa \<Rightarrow>
          (let db1 = merge_endpoint projectUuid qa db;
               db2 = merge_endpoint projectUuid (snd p) db1
           in Inr (fold merge_rel
                     (List.product (ids_with_path qa db2) (ids_with_path (snd p) db2)) db2)))"

definition upsertEdges :: "(string option \<times> string) list \<Rightarrow> string \<Rightarrow> store \<Rightarrow> error + store" where
  "upsertEdges pairs projectUuid db = executeWrite (unwind (upsert_pair projectUuid) pairs) db"

text \<open>Lines 77-93: the statement is sent only when there is at least one pair.\<close>

definition upsertEdgesStep :: "file_record list \<Rightarrow> string \<Rightarrow> store \<Rightarrow> error + store" where
  "upsertEdgesStep files projectUuid db =
     (if length (relPairs files) > 0 then upsertEdges (relPairs files) projectUuid db
      else Inr db)"

text \<open>
  Steps 1 and 2 as the \<^verbatim>\<open>try\<close> block runs them, and the store they leave: a step
  that fails writes nothing and ends the run.
\<close>

definition upsert_run :: "file_record list \<Rightarrow> string \<Rightarrow> store \<Rightarrow> store" where
  "upsert_run files projectUuid db =
     (case upsertNodes files projectUuid db of
        Inl e \<Rightarrow> db
      | Inr d1 \<Rightarrow>
          (case upsertEdgesStep files projectUuid d1 of
             Inl e \<Rightarrow> d1
           | Inr d2 \<Rightarrow> d2))"

definition blank_record :: file_record where
  "blank_record = \<lparr>f_path = None, f_importFiles = None, f_externalImports = None,
     f_name = None, f_loc = None, f_description = None, f_id = None\<rparr>"

section \<open>Step 3: the degree counts (updateImportCounts, lines 125-153)\<close>

text \<open>\<^verbatim>\<open>session.run(query)\<close>: one auto-committed statement.\<close>

definition session_run :: "(store \<Rightarrow> store) \<Rightarrow> store \<Rightarrow> error + store" where
  "session_run stmt db = (if online db then Inr (stmt db) else Inl ServiceUnavailable)"

text \<open>\<^verbatim>\<open>MATCH (f:File) RETURN id(f) AS id, f.path AS path\<close>, mapped to \<^verbatim>\<open>{id, path}\<close>.\<close>

definition match_files :: "store \<Rightarrow> (nat \<times> string option) list" where
  "match_files db = map (\<lambda>f. (nid f, n_path f)) (nodes db)"

text \<open>
  \<^verbatim>\<open>OPTIONAL MATCH\<close> keeps the row with a null when nothing matches, and
  \<^verbatim>\<open>COUNT(x)\<close> counts the rows where \<open>x\<close> is not null.
\<close>

definition optional_match :: "'a list \<Rightarrow> 'a option list" where
  "optional_match ms = (if ms = [] then [None] else map Some ms)"

definition count_rows :: "'a option list \<Rightarrow> nat" where
  "count_rows rows = length (filter (\<lambda>r. r \<noteq> None) rows)"

definition set_counts :: "store \<Rightarrow> nat \<Rightarrow> node \<Rightarrow> node" where
  "set_counts db i f =
     (if nid f = i
      then (let importCount = count_rows (optional_match (filter (\<lambda>e. fst e = nid f) (edges db)));
                importedByCount = count_rows (optional_match (filter (\<lambda>e. snd e = nid f) (edges db)))
            in f\<lparr>n_importCount := Some importCount, n_importedByCount := Some importedByCount\<rparr>)
      else f)"

text \<open>The statement of the loop body, for the node whose internal identifier is \<open>i\<close>.\<close>

definition count_stmt :: "nat \<Rightarrow> store \<Rightarrow> store" where
  "count_stmt i db = db\<lparr>nodes := map (set_counts db i) (nodes db)\<rparr>"

text \<open>The \<^verbatim>\<open>for\<close> loop sends one statement per file found, in the order found.\<close>

definition updateImportCounts :: "store \<Rightarrow> error + store" where
  "updateImportCounts db =
     (if online db
      then unwind (\<lambda>file. session_run (count_stmt (fst file))) (match_files db) db
      else Inl ServiceUnavailable)"

section \<open>Step 4: community detection (lines 97-113)\<close>

text \<open>\<^verbatim>\<open>CALL gds.graph.drop(name, failIfMissing)\<close>.\<close>

definition gds_graph_drop :: "string \<Rightarrow> bool \<Rightarrow> store \<Rightarrow> error + store" where
  "gds_graph_drop name failIfMissing db =
     (case map_of (catalog db) name of
        None \<Rightarrow> (if failIfMissing then Inl (GraphNotFound name) else Inr db)
      | Some g \<Rightarrow> Inr (db\<lparr>catalog := filter (\<lambda>entry. fst entry \<noteq> name) (catalog db)\<rparr>))"

text \<open>
  \<^verbatim>\<open>CALL gds.graph.project(name, 'File', {IMPORTS: {orientation: 'UNDIRECTED'}})\<close>:
  every File node, every IMPORTS relationship in both directions. The library refuses a
  name the catalogue holds already, a label the database has no token for, and a
  relationship type it has no token for.
\<close>

definition undirected :: "(nat \<times> nat) list \<Rightarrow> (nat \<times> nat) list" where
  "undirected es = es @ map (\<lambda>e. (snd e, fst e)) es"

definition project_graph :: "store \<Rightarrow> projection" where
  "project_graph db = \<lparr>g_nodes = map nid (nodes db), g_rels = undirected (edges db)\<rparr>"

definition gds_graph_project :: "string \<Rightarrow> store \<Rightarrow> error + store" where
  "gds_graph_project name db =
     (case map_of (catalog db) name of
        Some g \<Rightarrow> Inl (GraphAlreadyExists name)
      | None \<Rightarrow>
          (if ''File'' \<notin> set (labels db) then Inl (LabelNotFound ''File'')
           else if ''IMPORTS'' \<notin> set (rel_types db) then Inl (RelationshipTypeNotFound ''IMPORTS'')
           else Inr (db\<lparr>catalog := (name, project_graph db) # catalog db\<rparr>)))"

text \<open>
  \<^verbatim>\<open>CALL gds.louvain.write(name, {writeProperty: 'clusterId'})\<close>. The algorithm is the
  library's; \<open>louvain\<close> stands for it: the community it gives to each node of a projection.
\<close>

definition write_cluster :: "(projection \<Rightarrow> nat \<Rightarrow> nat) \<Rightarrow> projection \<Rightarrow> node \<Rightarrow> node" where
  "write_cluster louvain g f =
     (if nid f \<in> set (g_nodes g) then f\<lparr>n_clusterId := Some (louvain g (nid f))\<rparr> else f)"

definition gds_louvain_write :: "(projection \<Rightarrow> nat \<Rightarrow> nat) \<Rightarrow> string \<Rightarrow> store \<Rightarrow> error + store" where
  "gds_louvain_write louvain name db =
     (case map_of (catalog db) name of
        None \<Rightarrow> Inl (GraphNotFound name)
      | Some g \<Rightarrow> Inr (db\<lparr>nodes := map (write_cluster louvain g) (nodes db)\<rparr>))"

text \<open>
  The three calls of lines 98-112, inside \<^verbatim>\<open>session.executeWrite\<close>. The catalogue is
  the library's, held in memory outside the transaction, so a call that fails leaves what
  the calls before it did to the catalogue: the result is the store after the last call
  that succeeded, with the error if there is one.
\<close>

definition detectCommunities :: "(projection \<Rightarrow> nat \<Rightarrow> nat) \<Rightarrow> store \<Rightarrow> store \<times> error option" where
  "detectCommunities louvain db =
     (if \<not> online db then (db, Some ServiceUnavailable)
      else case gds_graph_drop ''importsGraph'' False db of
             Inl e \<Rightarrow> (db, Some e)
           | Inr d1 \<Rightarrow>
               (case gds_graph_project ''importsGraph'' d1 of
                  Inl e \<Rightarrow> (d1, Some e)
                | Inr d2 \<Rightarrow>
                    (case gds_louvain_write louvain ''importsGraph'' d2 of
                       Inl e \<Rightarrow> (d2, Some e)
                     | Inr d3 \<Rightarrow> (d3, None))))"

section \<open>Sessions and the schema (ensureConstraint, lines 25-36)\<close>

record world =
  w_store :: store
  sessions_opened :: nat
  sessions_closed :: nat

definition open_session :: "world \<Rightarrow> world" where
  "open_session w = w\<lparr>sessions_opened := Suc (sessions_opened w)\<rparr>"

definition close_session :: "world \<Rightarrow> world" where
  "close_session w = w\<lparr>sessions_closed := Suc (sessions_closed w)\<rparr>"

text \<open>
  \<^verbatim>\<open>CREATE CONSTRAINT IF NOT EXISTS FOR (f:File) REQUIRE f.<prop> IS UNIQUE\<close>: nothing
  to do when the constraint exists; otherwise it is created, and the label gets its token,
  unless two nodes hold the same value already.
\<close>

definition property_values :: "string \<Rightarrow> store \<Rightarrow> string list" where
  "property_values prop d =
     List.map_filter
       (\<lambda>f. if prop = ''path'' then n_path f else if prop = ''id'' then n_id f else None)
       (nodes d)"

definition create_constraint :: "string \<Rightarrow> store \<Rightarrow> error + store" where
  "create_constraint prop d =
     (if prop \<in> set (constraints d) then Inr d
      else if distinct (property_values prop d)
           then Inr (d\<lparr>constraints := constraints d @ [prop],
                       labels := add_token ''File'' (labels d)\<rparr>)
           else Inl (ConstraintCreationFailed prop))"

text \<open>
  \<open>ensureConstraint\<close> opens a session of its own and closes it in its
  \<^verbatim>\<open>finally\<close>; the error, if any, goes on to the caller.
\<close>

definition ensureConstraint :: "world \<Rightarrow> world \<times> error option" where
  "ensureConstraint w =
     (let w1 = open_session w
      in case executeWrite
                (\<lambda>d. case create_constraint ''path'' d of
                        Inl e \<Rightarrow> Inl e
                      | Inr d1 \<Rightarrow> create_constraint ''id'' d1)
                (w_store w1) of
           Inl e \<Rightarrow> (close_session w1, Some e)
         | Inr d \<Rightarrow> (close_session (w1\<lparr>w_store := d\<rparr>), None))"

section \<open>Normalising the records (lines 40-44)\<close>

text \<open>
  The records are JavaScript objects, and the callback of \<^verbatim>\<open>files.map\<close> assigns to
  the object it is given: the heap maps a reference to the object it points to, and the
  array is a list of references.
\<close>

type_synonym heap = "nat \<Rightarrow> file_record"

text \<open>A number printed in decimal, as a template literal prints \<^verbatim>\<open>Date.now()\<close>.\<close>

definition digit_char :: "nat \<Rightarrow> char" where
  "digit_char d = ''0123456789'' ! d"

fun decimal :: "nat \<Rightarrow> string" where
  "decimal n = (if n < 10 then [digit_char n] else decimal (n div 10) @ [digit_char (n mod 10)])"

declare decimal.simps [simp del]

text \<open>
  \<^verbatim>\<open>`${Date.now()}-${Math.random().toString(36).substring(2, 9)}`\<close>, from the clock's
  reading and the characters the random number gave.
\<close>

definition make_id :: "nat \<Rightarrow> string \<Rightarrow> string" where
  "make_id millis suffix = decimal millis @ ''-'' @ suffix"

text \<open>\<^verbatim>\<open>!f.description\<close>: the description is absent or the empty string.\<close>

definition falsy :: "string option \<Rightarrow> bool" where
  "falsy d = (d = None \<or> d = Some [])"

text \<open>
  The callback, for the \<open>k\<close>-th object: \<open>now k\<close> is what \<^verbatim>\<open>Date.now()\<close> returns in
  that call and \<open>rnd k\<close> the characters \<^verbatim>\<open>Math.random().toString(36).substring(2, 9)\<close>
  gives there.
\<close>

definition normalize_record :: "(nat \<Rightarrow> nat) \<Rightarrow> (nat \<Rightarrow> string) \<Rightarrow> nat \<Rightarrow> file_record \<Rightarrow> file_record" where
  "normalize_record now rnd k f =
     (let f1 = (if falsy (f_description f) then f\<lparr>f_description := Some []\<rparr> else f)
      in f1\<lparr>f_id := Some (make_id (now k) (rnd k))\<rparr>)"

text \<open>The heap after \<^verbatim>\<open>files.map(callback)\<close>; the new array holds the same references.\<close>

fun normalize_heap :: "(nat \<Rightarrow> nat) \<Rightarrow> (nat \<Rightarrow> string) \<Rightarrow> nat \<Rightarrow> heap \<Rightarrow> nat list \<Rightarrow> heap" where
  "normalize_heap now rnd k h [] = h"
| "normalize_heap now rnd k h (a # refs) =
     normalize_heap now rnd (Suc k) (h(a := normalize_record now rnd k (h a))) refs"

definition normalize_files ::
  "(nat \<Rightarrow> nat) \<Rightarrow> (nat \<Rightarrow> string) \<Rightarrow> heap \<Rightarrow> nat list \<Rightarrow> heap \<times> nat list" where
  "normalize_files now rnd h refs = (normalize_heap now rnd 0 h refs, refs)"

section \<open>The pipeline (importRepo, lines 38-123) and the script around it\<close>

record env =
  e_now :: "nat \<Rightarrow> nat"
  e_rnd :: "nat \<Rightarrow> string"
  e_louvain :: "projection \<Rightarrow> nat \<Rightarrow> nat"

text \<open>
  What a call of \<open>importRepo\<close> leaves behind: the heap, the store and its sessions, the
  error the \<^verbatim>\<open>catch\<close> block saw, the status \<^verbatim>\<open>process.exit\<close> was called with, and
  the error that leaves the function towards its caller.
\<close>

record outcome =
  o_heap :: heap
  o_world :: world
  o_caught :: "error option"
  o_exit :: "int option"
  o_thrown :: "error option"

text \<open>The body of the \<^verbatim>\<open>try\<close> block: each step runs on what the one before committed.\<close>

definition try_body :: "env \<Rightarrow> file_record list \<Rightarrow> string \<Rightarrow> world \<Rightarrow> world \<times> error option" where
  "try_body ev files projectUuid w =
     (case ensureConstraint w of
        (w1, Some e) \<Rightarrow> (w1, Some e)
      | (w1, None) \<Rightarrow>
          (case upsertNodes files projectUuid (w_store w1) of
             Inl e \<Rightarrow> (w1, Some e)
           | Inr d2 \<Rightarrow>
               (case upsertEdgesStep files projectUuid d2 of
                  Inl e \<Rightarrow> (w1\<lparr>w_store := d2\<rparr>, Some e)
                | Inr d3 \<Rightarrow>
                    (case updateImportCounts d3 of
                       Inl e \<Rightarrow> (w1\<lparr>w_store := d3\<rparr>, Some e)
                     | Inr d4 \<Rightarrow>
                         (case detectCommunities (e_louvain ev) d4 of
                            (d5, err) \<Rightarrow> (w1\<lparr>w_store := d5\<rparr>, err))))))"

text \<open>
  \<open>importRepo\<close>. The \<^verbatim>\<open>catch\<close> block logs the error and throws it again; the
  \<^verbatim>\<open>finally\<close> block closes the session and calls \<^verbatim>\<open>process.exit(0)\<close>, on both
  paths, so the process ends there and the error thrown again reaches nobody.
\<close>

definition importRepo :: "env \<Rightarrow> heap \<Rightarrow> nat list option \<Rightarrow> string \<Rightarrow> world \<Rightarrow> outcome" where
  "importRepo ev h files projectUuid w =
     (case files of
        None \<Rightarrow> \<lparr>o_heap = h, o_world = w, o_caught = None, o_exit = None, o_thrown = None\<rparr>
      | Some refs \<Rightarrow>
          (if length refs = 0
           then \<lparr>o_heap = h, o_world = w, o_caught = None, o_exit = None, o_thrown = None\<rparr>
           else (case normalize_files (e_now ev) (e_rnd ev) h refs of
                   (h1, refs1) \<Rightarrow>
                     (case try_body ev (map h1 refs1) projectUuid (open_session w) of
                        (w1, err) \<Rightarrow>
                          \<lparr>o_heap = h1, o_world = close_session w1, o_caught = err,
                           o_exit = Some 0, o_thrown = None\<rparr>))))"

text \<open>
  The script: the usage check of lines 6-9, \<^verbatim>\<open>files.length\<close> of line 17 (a
  \<^verbatim>\<open>TypeError\<close> when the JSON is \<^verbatim>\<open>null\<close>), the call of line 156. The result is
  the status the process ends with: the one given to \<^verbatim>\<open>process.exit\<close>, else 1 after an
  uncaught error, else 0.
\<close>

definition main :: "env \<Rightarrow> heap \<Rightarrow> nat \<Rightarrow> nat list option \<Rightarrow> string \<Rightarrow> world \<Rightarrow> int" where
  "main ev h argc files projectUuid w =
     (if argc < 4 then 1
      else case files of
             None \<Rightarrow> 1
           | Some refs \<Rightarrow>
               (let out = importRepo ev h files projectUuid w
                in case o_exit out of
                     Some status \<Rightarrow> status
                   | None \<Rightarrow> (case o_thrown out of Some e \<Rightarrow> 1 | None \<Rightarrow> 0)))"

section \<open>The numeric conversion of the query proxy (index.js, lines 11-20)\<close>

text \<open>
  A JavaScript value of a result set. \<open>JInt\<close> is the driver's 64-bit integer object,
  the one \<^verbatim>\<open>neo4j.isInt\<close> recognises; \<open>JNum\<close> is a native number; an object is its
  enumerable keys with their values, in enumeration order.
\<close>

datatype jsval =
    JUndefined
  | JNull
  | JBool bool
  | JNum real
  | JStr string
  | JArr "jsval list"
  | JObj "(string \<times> jsval) list"
  | JInt "64 word"

text \<open>\<open>toNumber\<close> stands for the driver's \<^verbatim>\<open>Integer.prototype.toNumber\<close>.\<close>

primrec convertNeo4jValue :: "(64 word \<Rightarrow> real) \<Rightarrow> jsval \<Rightarrow> jsval" where
  "convertNeo4jValue toNumber JUndefined = JUndefined"
| "convertNeo4jValue toNumber JNull = JNull"
| "convertNeo4jValue toNumber (JBool b) = JBool b"
| "convertNeo4jValue toNumber (JNum x) = JNum x"
| "convertNeo4jValue toNumber (JStr s) = JStr s"
| "convertNeo4jValue toNumber (JArr vs) = JArr (map (convertNeo4jValue toNumber) vs)"
| "convertNeo4jValue toNumber (JObj kvs) = JObj (map (map_prod id (convertNeo4jValue toNumber)) kvs)"
| "convertNeo4jValue toNumber (JInt i) = JNum (toNumber i)"

text \<open>
  The driver computes \<^verbatim>\<open>this.high * 2^32 + (this.low >>> 0)\<close> in double precision: the
  double nearest to the integer, ties to the even significand. \<open>excess_bits m\<close> is the
  number of low bits a magnitude loses to fit the 53-bit significand.
\<close>

function excess_bits :: "nat \<Rightarrow> nat" where
  "excess_bits m = (if m < 2 ^ 53 then 0 else Suc (excess_bits (m div 2)))"
  by pat_completeness auto
termination
  by (relation "measure id") auto

declare excess_bits.simps [simp del]

definition nearest_double :: "int \<Rightarrow> int" where
  "nearest_double n =
     (let m = nat \<bar>n\<bar>;
          e = excess_bits m;
          q = m div 2 ^ e;
          r = m mod 2 ^ e;
          q' = (if 2 * r > 2 ^ e \<or> (2 * r = 2 ^ e \<and> odd q) then q + 1 else q)
      in sgn n * int (q' * 2 ^ e))"

definition Integer_toNumber :: "64 word \<Rightarrow> real" where
  "Integer_toNumber i = real_of_int (nearest_double (sint i))"

text \<open>What a value holds: its store integers, its numbers, and its shape without them.\<close>

primrec ints_of :: "jsval \<Rightarrow> 64 word list" where
  "ints_of JUndefined = []"
| "ints_of JNull = []"
| "ints_of (JBool b) = []"
| "ints_of (JNum x) = []"
| "ints_of (JStr s) = []"
| "ints_of (JArr vs) = concat (map ints_of vs)"
| "ints_of (JObj kvs) = concat (map snd (map (map_prod id ints_of) kvs))"
| "ints_of (JInt i) = [i]"

primrec numbers_of :: "(64 word \<Rightarrow> real) \<Rightarrow> jsval \<Rightarrow> real list" where
  "numbers_of rd JUndefined = []"
| "numbers_of rd JNull = []"
| "numbers_of rd (JBool b) = []"
| "numbers_of rd (JNum x) = [x]"
| "numbers_of rd (JStr s) = []"
| "numbers_of rd (JArr vs) = concat (map (numbers_of rd) vs)"
| "numbers_of rd (JObj kvs) = concat (map snd (map (map_prod id (numbers_of rd)) kvs))"
| "numbers_of rd (JInt i) = [rd i]"

primrec shape_of :: "jsval \<Rightarrow> jsval" where
  "shape_of JUndefined = JUndefined"
| "shape_of JNull = JNull"
| "shape_of (JBool b) = JBool b"
| "shape_of (JNum x) = JNum 0"
| "shape_of (JStr s) = JStr s"
| "shape_of (JArr vs) = JArr (map shape_of vs)"
| "shape_of (JObj kvs) = JObj (map (map_prod id shape_of) kvs)"
| "shape_of (JInt i) = JNum 0"

section \<open>Vocabulary of the proofs\<close>

text \<open>The store a successful step returned.\<close>

definition the_store :: "error + store \<Rightarrow> store" where
  "the_store r = (case r of Inl e \<Rightarrow> empty_store | Inr d \<Rightarrow> d)"

text \<open>
  Where a node found after the edge step comes from: it was there before, unchanged; or it
  was there without a projectUuid and received the batch's; or the step created it.
\<close>

definition endpoint_origin :: "string \<Rightarrow> store \<Rightarrow> node \<Rightarrow> bool" where
  "endpoint_origin p db n' \<longleftrightarrow>
     n' \<in> set (nodes db)
   \<or> (\<exists>n \<in> set (nodes db). n_projectUuid n = None \<and> n' = n\<lparr>n_projectUuid := Some p\<rparr>)
   \<or> (\<exists>i q. \<not> has_path q db \<and> n' = (new_node i q)\<lparr>n_projectUuid := Some p\<rparr>)"

text \<open>The effect of one row of step 1 on one node, and of all rows in turn.\<close>

definition row_effect :: "string \<Rightarrow> file_record \<Rightarrow> node \<Rightarrow> node" where
  "row_effect p file n = (case f_path file of None \<Rightarrow> n | Some q \<Rightarrow> set_on_path q file p n)"

definition settled :: "file_record list \<Rightarrow> string \<Rightarrow> node \<Rightarrow> bool" where
  "settled files p n \<longleftrightarrow> fold (row_effect p) files n = n"

definition saturated :: "file_record list \<Rightarrow> store \<Rightarrow> bool" where
  "saturated files db \<longleftrightarrow> (\<forall>file \<in> set files. \<exists>q. f_path file = Some q \<and> has_path q db)"

text \<open>A pair whose row of step 2 has nothing left to do.\<close>

definition linked :: "string option \<times> string \<Rightarrow> store \<Rightarrow> bool" where
  "linked pr db \<longleftrightarrow>
     (\<exists>qa. fst pr = Some qa \<and> has_path qa db \<and> has_path (snd pr) db
        \<and> (\<forall>n \<in> set (nodes db). n_path n = Some qa \<or> n_path n = Some (snd pr)
              \<longrightarrow> n_projectUuid n \<noteq> None)
        \<and> set (List.product (ids_with_path qa db) (ids_with_path (snd pr) db)) \<subseteq> set (edges db))"

text \<open>A node with both degree counts taken from the relationships of a store.\<close>

definition recount :: "store \<Rightarrow> node \<Rightarrow> node" where
  "recount d f = f\<lparr>n_importCount := Some (length (filter (\<lambda>e. fst e = nid f) (edges d))),
                   n_importedByCount := Some (length (filter (\<lambda>e. snd e = nid f) (edges d)))\<rparr>"

definition recount_in :: "store \<Rightarrow> nat set \<Rightarrow> node \<Rightarrow> node" where
  "recount_in d S f = (if nid f \<in> S then recount d f else f)"

text \<open>A node with the community the algorithm gave it.\<close>

definition with_cluster :: "(projection \<Rightarrow> nat \<Rightarrow> nat) \<Rightarrow> projection \<Rightarrow> node \<Rightarrow> node" where
  "with_cluster lv g f = f\<lparr>n_clusterId := Some (lv g (nid f))\<rparr>"

text \<open>The description a record has after normalisation.\<close>

definition described :: "file_record \<Rightarrow> string" where
  "described f = (case f_description f of None \<Rightarrow> [] | Some s \<Rightarrow> s)"

section \<open>Example inputs\<close>

definition a_imports_b :: file_record where
  "a_imports_b = blank_record\<lparr>f_path := Some ''a.pl'', f_importFiles := Some [''b.pl'']\<rparr>"




text \<open>The two records of the end-to-end scenario.\<close>

definition x_imports_y :: "file_record list" where
  "x_imports_y =
     [blank_record\<lparr>f_path := Some ''x.js'', f_importFiles := Some [''y.js''],
                   f_externalImports := Some [''lodash'']\<rparr>,
      blank_record\<lparr>f_path := Some ''y.js'', f_importFiles := Some [],
                   f_externalImports := Some []\<rparr>]"

text \<open>The graph with the relationships a\<rightarrow>b, a\<rightarrow>c, d\<rightarrow>b.\<close>

definition abcd_store :: store where
  "abcd_store = empty_store\<lparr>
     nodes := [new_node 0 ''a'', new_node 1 ''b'', new_node 2 ''c'', new_node 3 ''d''],
     edges := [(0, 1), (0, 2), (3, 1)],
     next_id := 4,
     labels := [''File''],
     rel_types := [''IMPORTS'']\<rparr>"

text \<open>The same graph, with a projection left in the catalogue by an earlier run.\<close>

definition stale_projection_store :: store where
  "stale_projection_store = abcd_store\<lparr>catalog := [(''importsGraph'', \<lparr>g_nodes = [], g_rels = []\<rparr>)]\<rparr>"

text \<open>
  An environment to run the examples in: a clock that stands still, a random generator
  that repeats itself, and a clustering that leaves every node alone. The general
  theorems hold for every environment.
\<close>

definition each_alone :: "projection \<Rightarrow> nat \<Rightarrow> nat" where
  "each_alone g i = i"

definition fixed_clock :: "nat \<Rightarrow> nat" where
  "fixed_clock k = 1700000000000"

definition fixed_suffix :: "nat \<Rightarrow> string" where
  "fixed_suffix k = ''k3x9q2a''"

definition two_suffixes :: "nat \<Rightarrow> string" where
  "two_suffixes k = (if k = 0 then ''k3x9q2a'' else ''p0m4z7c'')"

definition test_env :: env where
  "test_env = \<lparr>e_now = fixed_clock, e_rnd = fixed_suffix, e_louvain = each_alone\<rparr>"

text \<open>The same environment with a random generator that gives two different draws.\<close>

definition run_env :: env where
  "run_env = \<lparr>e_now = fixed_clock, e_rnd = two_suffixes, e_louvain = each_alone\<rparr>"

text \<open>An empty store that answers, and one that does not.\<close>

definition fresh_world :: world where
  "fresh_world = \<lparr>w_store = empty_store, sessions_opened = 0, sessions_closed = 0\<rparr>"

definition offline_world :: world where
  "offline_world = \<lparr>w_store = empty_store\<lparr>online := False\<rparr>, sessions_opened = 0, sessions_closed = 0\<rparr>"

text \<open>Heaps: one where every reference holds the record a.pl, one with a record without path,
  one with the two records of the end-to-end scenario.\<close>

definition one_file_heap :: heap where
  "one_file_heap a = a_imports_b"

definition pathless_heap :: heap where
  "pathless_heap a = blank_record\<lparr>f_name := Some ''orphan''\<rparr>"

text \<open>A heap whose record imports nothing.\<close>

definition solo_heap :: heap where
  "solo_heap a = blank_record\<lparr>f_path := Some ''solo.js''\<rparr>"

definition two_file_heap :: heap where
  "two_file_heap a = (if a = 0 then x_imports_y ! 0 else x_imports_y ! 1)"

text \<open>
  A store shared with project P1: its node \<^verbatim>\<open>lib.js\<close> carries counts and a cluster
  from an earlier pass.
\<close>

definition stale_p1_node :: node where
  "stale_p1_node = (new_node 0 ''lib.js'')\<lparr>n_projectUuid := Some ''P1'',
     n_importCount := Some 7, n_importedByCount := Some 7, n_clusterId := Some 99\<rparr>"

definition shared_world :: world where
  "shared_world = \<lparr>w_store = empty_store\<lparr>nodes := [stale_p1_node], next_id := 1,
                                               labels := [''File'']\<rparr>,
                    sessions_opened = 0, sessions_closed = 0\<rparr>"

text \<open>
  A store with both uniqueness constraints declared, and a batch in which the path
  \<^verbatim>\<open>p\<close> comes twice, first with the id that \<^verbatim>\<open>q\<close> receives later.
\<close>

definition constrained_store :: store where
  "constrained_store = empty_store\<lparr>constraints := [''path'', ''id'']\<rparr>"

definition repeated_path_records :: "file_record list" where
  "repeated_path_records =
     [blank_record\<lparr>f_path := Some ''p'', f_id := Some ''A''\<rparr>,
      blank_record\<lparr>f_path := Some ''p'', f_id := Some ''B''\<rparr>,
      blank_record\<lparr>f_path := Some ''q'', f_id := Some ''A''\<rparr>]"

text \<open>A row of a result set, with store integers at two depths.\<close>

definition sample_row :: jsval where
  "sample_row = JObj [(''path'', JStr ''a.pl''), (''importCount'', JInt 2),
                      (''ids'', JArr [JInt 7, JNum 1.5, JNull])]"

section \<open>Lemmas about the two upsert statements\<close>

lemma unwind_append:
  "unwind row (xs @ ys) db =
     (case unwind row xs db of Inl e \<Rightarrow> Inl e | Inr db' \<Rightarrow> unwind row ys db')"
  by (induction xs arbitrary: db) (auto split: sum.splits)

lemma unwind_invariant:
  assumes "unwind row rs db = Inr db'" and "P db"
    and "\<And>r d d'. r \<in> set rs \<Longrightarrow> P d \<Longrightarrow> row r d = Inr d' \<Longrightarrow> P d'"
  shows "P db'"
  using assms
proof (induction rs arbitrary: db)
  case Nil
  then show ?case by simp
next
  case (Cons r rs)
  from Cons.prems(1) obtain d where d: "row r db = Inr d" "unwind row rs d = Inr db'"
    by (auto split: sum.splits)
  have "P d" using Cons.prems(3)[of r db d] Cons.prems(2) d(1) by simp
  then show ?case using Cons.IH[OF d(2)] Cons.prems(3) by auto
qed

lemma nodes_merge_rel [simp]: "nodes (merge_rel e db) = nodes db"
  by (simp add: merge_rel_def)

lemma nodes_fold_merge_rel [simp]: "nodes (fold merge_rel es db) = nodes db"
  by (induction es arbitrary: db) auto

lemma fold_merge_rel_fixed:
  "set es \<subseteq> set (edges db) \<Longrightarrow> fold merge_rel es db = db"
  by (induction es arbitrary: db) (auto simp: merge_rel_def)

lemma edges_merge_rel_mono: "set (edges db) \<subseteq> set (edges (merge_rel e db))"
  by (auto simp: merge_rel_def)

lemma edges_fold_merge_rel: "set (edges (fold merge_rel es db)) = set (edges db) \<union> set es"
  by (induction es arbitrary: db) (auto simp: merge_rel_def)

lemma online_fold_merge_rel [simp]: "online (fold merge_rel es db) = online db"
  by (induction es arbitrary: db) (auto simp: merge_rel_def)

lemma on_match_fixed: "n_projectUuid n \<noteq> None \<Longrightarrow> on_match p q n = n"
  by (auto simp: on_match_def coalesce_def)

lemma n_path_on_match [simp]: "n_path (on_match p q n) = n_path n"
  by (simp add: on_match_def)

lemma nid_on_match [simp]: "nid (on_match p q n) = nid n"
  by (simp add: on_match_def)

lemma merge_endpoint_keeps:
  assumes "n \<in> set (nodes db)" and "n_projectUuid n \<noteq> None"
  shows "n \<in> set (nodes (merge_endpoint p q db))"
proof (cases "has_path q db")
  case True
  have "on_match p q n \<in> set (map (on_match p q) (nodes db))" using assms(1) by simp
  then show ?thesis using True assms(2) by (simp add: merge_endpoint_def on_match_fixed)
next
  case False
  then show ?thesis using assms(1) by (simp add: merge_endpoint_def)
qed

lemma has_path_merge_endpoint_mono:
  "has_path q' db \<Longrightarrow> has_path q' (merge_endpoint p q db)"
  unfolding has_path_def merge_endpoint_def by (auto simp: has_path_def)

lemma has_path_merge_endpoint [simp]: "has_path q (merge_endpoint p q db)"
  unfolding merge_endpoint_def by (auto simp: has_path_def new_node_def)

lemma on_match_cases:
  "on_match p q n = n \<or> (n_projectUuid n = None \<and> on_match p q n = n\<lparr>n_projectUuid := Some p\<rparr>)"
  by (auto simp: on_match_def coalesce_def split: option.splits)

lemma merge_endpoint_origin:
  assumes "n' \<in> set (nodes (merge_endpoint p q db))"
  shows "endpoint_origin p db n'"
proof (cases "has_path q db")
  case True
  with assms obtain n where n: "n \<in> set (nodes db)" "n' = on_match p q n"
    by (auto simp: merge_endpoint_def)
  then show ?thesis using on_match_cases[of p q n] unfolding endpoint_origin_def by metis
next
  case False
  with assms have "n' \<in> set (nodes db) \<or> n' = (new_node (next_id db) q)\<lparr>n_projectUuid := Some p\<rparr>"
    by (auto simp: merge_endpoint_def)
  then show ?thesis using False unfolding endpoint_origin_def by blast
qed

lemma endpoint_origin_trans:
  assumes "endpoint_origin p db1 n'" and "\<forall>n \<in> set (nodes db1). endpoint_origin p db n"
    and "\<And>q. has_path q db \<Longrightarrow> has_path q db1"
  shows "endpoint_origin p db n'"
proof -
  consider (old) "n' \<in> set (nodes db1)"
    | (upd) n where "n \<in> set (nodes db1)" "n_projectUuid n = None" "n' = n\<lparr>n_projectUuid := Some p\<rparr>"
    | (new) i q where "\<not> has_path q db1" "n' = (new_node i q)\<lparr>n_projectUuid := Some p\<rparr>"
    using assms(1) unfolding endpoint_origin_def by blast
  then show ?thesis
  proof cases
    case old
    then show ?thesis using assms(2) by blast
  next
    case upd
    have "endpoint_origin p db n" using assms(2) upd(1) by blast
    then have "n \<in> set (nodes db)" using upd(2) unfolding endpoint_origin_def by auto
    then show ?thesis using upd unfolding endpoint_origin_def by blast
  next
    case new
    then show ?thesis using assms(3) unfolding endpoint_origin_def by blast
  qed
qed

lemma upsert_pair_Inr:
  assumes "upsert_pair p pr db = Inr db'"
  obtains qa where "fst pr = Some qa"
    and "db' = fold merge_rel
            (List.product (ids_with_path qa (merge_endpoint p (snd pr) (merge_endpoint p qa db)))
                          (ids_with_path (snd pr) (merge_endpoint p (snd pr) (merge_endpoint p qa db))))
            (merge_endpoint p (snd pr) (merge_endpoint p qa db))"
  using assms by (auto simp: upsert_pair_def Let_def split: option.splits)

lemma upsert_pair_nodes:
  assumes "upsert_pair p pr db = Inr db'"
  obtains qa where "fst pr = Some qa"
    and "nodes db' = nodes (merge_endpoint p (snd pr) (merge_endpoint p qa db))"
  using assms by (auto elim!: upsert_pair_Inr)

lemma upsert_pair_keeps:
  assumes "upsert_pair p pr db = Inr db'" "n \<in> set (nodes db)" "n_projectUuid n \<noteq> None"
  shows "n \<in> set (nodes db')"
  using assms by (auto elim!: upsert_pair_nodes intro!: merge_endpoint_keeps)

lemma has_path_nodes_cong: "nodes db = nodes db' \<Longrightarrow> has_path q db = has_path q db'"
  by (simp add: has_path_def)

lemma upsert_pair_has_path_mono:
  assumes "upsert_pair p pr db = Inr db'" "has_path q db"
  shows "has_path q db'"
proof -
  from assms(1) obtain qa where
    n: "nodes db' = nodes (merge_endpoint p (snd pr) (merge_endpoint p qa db))"
    by (rule upsert_pair_nodes)
  have "has_path q (merge_endpoint p (snd pr) (merge_endpoint p qa db))"
    using assms(2) by (intro has_path_merge_endpoint_mono)
  then show ?thesis using n by (simp add: has_path_def)
qed

lemma upsert_pair_origin:
  assumes "upsert_pair p pr db = Inr db'" "n' \<in> set (nodes db')"
  shows "endpoint_origin p db n'"
proof -
  from assms(1) obtain qa where
    n: "nodes db' = nodes (merge_endpoint p (snd pr) (merge_endpoint p qa db))"
    by (rule upsert_pair_nodes)
  have 1: "endpoint_origin p (merge_endpoint p qa db) n'"
    using assms(2) n by (auto intro: merge_endpoint_origin)
  show ?thesis
    by (rule endpoint_origin_trans[OF 1]) (auto intro: merge_endpoint_origin has_path_merge_endpoint_mono)
qed

lemma unwind_pairs_keeps:
  assumes "unwind (upsert_pair p) prs db = Inr db'" "n \<in> set (nodes db)" "n_projectUuid n \<noteq> None"
  shows "n \<in> set (nodes db')"
  by (rule unwind_invariant[where P = "\<lambda>d. n \<in> set (nodes d)", OF assms(1) assms(2)])
     (rule upsert_pair_keeps[OF _ _ assms(3)])

lemma unwind_pairs_has_path_mono:
  assumes "unwind (upsert_pair p) prs db = Inr db'" "has_path q db"
  shows "has_path q db'"
  by (rule unwind_invariant[where P = "has_path q", OF assms(1) assms(2)])
     (auto intro: upsert_pair_has_path_mono)

lemma unwind_pairs_origin:
  "unwind (upsert_pair p) prs db = Inr db' \<Longrightarrow> n' \<in> set (nodes db') \<Longrightarrow> endpoint_origin p db n'"
proof (induction prs arbitrary: db)
  case Nil
  then show ?case by (simp add: endpoint_origin_def)
next
  case (Cons pr prs)
  from Cons.prems(1) obtain d where d: "upsert_pair p pr db = Inr d" "unwind (upsert_pair p) prs d = Inr db'"
    by (auto split: sum.splits)
  have 1: "endpoint_origin p d n'" using Cons.IH[OF d(2) Cons.prems(2)] .
  show ?case
    by (rule endpoint_origin_trans[OF 1]) (auto intro: upsert_pair_origin[OF d(1)] upsert_pair_has_path_mono[OF d(1)])
qed

lemma upsertEdgesStep_cases:
  assumes "upsertEdgesStep files p db = Inr db'"
  shows "unwind (upsert_pair p) (relPairs files) db = Inr db'"
  using assms
  by (auto simp: upsertEdgesStep_def upsertEdges_def executeWrite_def split: if_splits)

lemma set_on_path_other: "n_path n \<noteq> Some q \<Longrightarrow> set_on_path q file p n = n"
  by (simp add: set_on_path_def)

lemma upsert_file_keeps:
  assumes "upsert_file p file db = Inr db'" "n \<in> set (nodes db)" "n_path n \<noteq> f_path file"
  shows "n \<in> set (nodes db')"
proof -
  from assms(1) obtain q where q: "f_path file = Some q"
    and db': "db' = (merge_file q db)\<lparr>nodes := map (set_on_path q file p) (nodes (merge_file q db))\<rparr>"
    by (auto simp: upsert_file_def Let_def split: option.splits if_splits)
  have "n \<in> set (nodes (merge_file q db))" using assms(2) by (simp add: merge_file_def)
  then have "set_on_path q file p n \<in> set (nodes db')" unfolding db' by simp
  then show ?thesis using assms(3) q by (simp add: set_on_path_other)
qed

lemma unwind_files_keeps:
  assumes "unwind (upsert_file p) files db = Inr db'" "n \<in> set (nodes db)"
    "n_path n \<notin> f_path ` set files"
  shows "n \<in> set (nodes db')"
  by (rule unwind_invariant[where P = "\<lambda>d. n \<in> set (nodes d)", OF assms(1) assms(2)])
     (use assms(3) in \<open>auto intro: upsert_file_keeps\<close>)

lemma upsertNodes_cases:
  assumes "upsertNodes files p db = Inr db'"
  shows "unwind (upsert_file p) files db = Inr db'" and "online db"
  using assms by (auto simp: upsertNodes_def executeWrite_def split: if_splits)

lemma set_file_props_absorb [simp]:
  "set_file_props f p (set_file_props g p n) = set_file_props f p n"
  by (simp add: set_file_props_def)

lemma n_path_set_file_props [simp]: "n_path (set_file_props f p n) = n_path n"
  by (simp add: set_file_props_def)

lemma n_path_set_on_path [simp]: "n_path (set_on_path q f p n) = n_path n"
  by (simp add: set_on_path_def)

lemma n_path_row_effect [simp]: "n_path (row_effect p f n) = n_path n"
  by (simp add: row_effect_def split: option.splits)

lemma n_path_fold_row_effect [simp]: "n_path (fold (row_effect p) fs n) = n_path n"
  by (induction fs arbitrary: n) auto

lemma set_file_props_row_effect [simp]:
  "set_file_props f p (row_effect p g n) = set_file_props f p n"
  by (simp add: row_effect_def set_on_path_def split: option.splits)

lemma set_file_props_fold [simp]:
  "set_file_props f p (fold (row_effect p) gs n) = set_file_props f p n"
  by (induction gs arbitrary: n) auto

lemma fold_row_effect_no_match:
  "n_path n \<notin> f_path ` set fs \<Longrightarrow> fold (row_effect p) fs n = n"
proof (induction fs arbitrary: n)
  case Nil
  then show ?case by simp
next
  case (Cons f fs)
  have "row_effect p f n = n" using Cons.prems
    by (auto simp: row_effect_def set_on_path_def split: option.splits)
  then show ?case using Cons by simp
qed

lemma fold_row_effect_match:
  "n_path n \<in> f_path ` set fs \<Longrightarrow> n_path n \<noteq> None \<Longrightarrow>
   n_projectUuid (fold (row_effect p) fs n) = Some p"
proof (induction fs arbitrary: n rule: rev_induct)
  case Nil
  then show ?case by simp
next
  case (snoc f fs)
  show ?case
  proof (cases "n_path n = f_path f")
    case True
    then obtain q where q: "f_path f = Some q" using snoc.prems(2) by (cases "f_path f") auto
    let ?m = "fold (row_effect p) fs n"
    have "n_path ?m = Some q" using True q by simp
    then have "row_effect p f ?m = set_file_props f p ?m"
      using q by (simp add: row_effect_def set_on_path_def)
    then show ?thesis by (simp add: set_file_props_def)
  next
    case False
    then have "n_path n \<in> f_path ` set fs" using snoc.prems(1) by auto
    note ih = snoc.IH[OF this snoc.prems(2)]
    let ?m = "fold (row_effect p) fs n"
    have "n_path ?m \<noteq> f_path f" using False by simp
    then have "row_effect p f ?m = ?m"
      by (auto simp: row_effect_def set_on_path_def split: option.splits)
    then show ?thesis using ih by simp
  qed
qed

lemma has_path_merge_file [simp]: "has_path q (merge_file q db)"
  by (auto simp: merge_file_def has_path_def new_node_def)

lemma has_path_merge_file_mono: "has_path q' db \<Longrightarrow> has_path q' (merge_file q db)"
  by (auto simp: merge_file_def has_path_def)

lemma has_path_map_set_on_path [simp]:
  "has_path q' (db\<lparr>nodes := map (set_on_path q f p) (nodes db)\<rparr>) = has_path q' db"
  by (auto simp: has_path_def)

lemma upsert_file_Inr:
  assumes "upsert_file p file db = Inr db'"
  obtains q where "f_path file = Some q"
    and "db' = (merge_file q db)\<lparr>nodes := map (set_on_path q file p) (nodes (merge_file q db))\<rparr>"
  using assms by (auto simp: upsert_file_def Let_def split: option.splits if_splits)

lemma upsert_file_has_path_mono:
  "upsert_file p file db = Inr db' \<Longrightarrow> has_path q db \<Longrightarrow> has_path q db'"
  by (auto elim!: upsert_file_Inr intro: has_path_merge_file_mono)

lemma upsert_file_has_own_path:
  "upsert_file p file db = Inr db' \<Longrightarrow> \<exists>q. f_path file = Some q \<and> has_path q db'"
  by (auto elim!: upsert_file_Inr)

lemma unwind_files_has_path_mono:
  assumes "unwind (upsert_file p) fs db = Inr db'" "has_path q db"
  shows "has_path q db'"
  by (rule unwind_invariant[where P = "has_path q", OF assms(1) assms(2)])
     (rule upsert_file_has_path_mono)

lemma unwind_files_saturated:
  "unwind (upsert_file p) fs db = Inr db' \<Longrightarrow> saturated fs db'"
proof (induction fs arbitrary: db)
  case Nil
  then show ?case by (simp add: saturated_def)
next
  case (Cons f fs)
  from Cons.prems obtain d where d: "upsert_file p f db = Inr d" "unwind (upsert_file p) fs d = Inr db'"
    by (auto split: sum.splits)
  from upsert_file_has_own_path[OF d(1)] obtain q where q: "f_path f = Some q" "has_path q d"
    by blast
  have "has_path q db'" by (rule unwind_files_has_path_mono[OF d(2) q(2)])
  then show ?case using Cons.IH[OF d(2)] q(1) by (simp add: saturated_def)
qed

lemma upsert_file_present:
  assumes "f_path file = Some q" "has_path q db" "upsert_file p file db = Inr db'"
  shows "db' = db\<lparr>nodes := map (row_effect p file) (nodes db)\<rparr>"
proof -
  have "row_effect p file = set_on_path q file p" using assms(1) by (auto simp: row_effect_def)
  then show ?thesis using assms
    by (auto simp: upsert_file_def merge_file_def split: if_splits)
qed

lemma unwind_files_saturated_eq:
  "saturated fs db \<Longrightarrow> unwind (upsert_file p) fs db = Inr db' \<Longrightarrow>
   db' = db\<lparr>nodes := map (fold (row_effect p) fs) (nodes db)\<rparr>"
proof (induction fs arbitrary: db)
  case Nil
  then show ?case by simp
next
  case (Cons f fs)
  from Cons.prems(1) obtain q where q: "f_path f = Some q" "has_path q db"
    by (auto simp: saturated_def)
  from Cons.prems(2) obtain d where d: "upsert_file p f db = Inr d"
    "unwind (upsert_file p) fs d = Inr db'"
    by (auto split: sum.splits)
  have d_eq: "d = db\<lparr>nodes := map (row_effect p f) (nodes db)\<rparr>"
    by (rule upsert_file_present[OF q d(1)])
  have "saturated fs d" using Cons.prems(1) unfolding d_eq by (auto simp: saturated_def has_path_def)
  from Cons.IH[OF this d(2)] show ?case unfolding d_eq by (simp add: comp_def)
qed

lemma unwind_files_fixed:
  assumes "saturated fs db" "\<forall>n \<in> set (nodes db). settled fs p n"
    and "unwind (upsert_file p) fs db = Inr db'"
  shows "db' = db"
proof -
  have "map (fold (row_effect p) fs) (nodes db) = nodes db"
    using assms(2) by (simp add: settled_def map_idI)
  then show ?thesis using unwind_files_saturated_eq[OF assms(1) assms(3)] by simp
qed

lemma unwind_files_settled:
  "unwind (upsert_file p) fs db = Inr db' \<Longrightarrow> \<forall>n \<in> set (nodes db'). settled fs p n"
proof (induction fs arbitrary: db' rule: rev_induct)
  case Nil
  then show ?case by (simp add: settled_def)
next
  case (snoc f fs)
  from snoc.prems obtain d where d: "unwind (upsert_file p) fs db = Inr d" "upsert_file p f d = Inr db'"
    by (auto simp: unwind_append split: sum.splits)
  from d(2) obtain q where q: "f_path f = Some q"
    and db': "db' = (merge_file q d)\<lparr>nodes := map (set_on_path q f p) (nodes (merge_file q d))\<rparr>"
    by (rule upsert_file_Inr)
  have re: "row_effect p f = set_on_path q f p" using q by (auto simp: row_effect_def)
  show ?case
  proof
    fix n' assume "n' \<in> set (nodes db')"
    then obtain m where m: "m \<in> set (nodes (merge_file q d))" "n' = set_on_path q f p m"
      unfolding db' by auto
    show "settled (fs @ [f]) p n'"
    proof (cases "n_path m = Some q")
      case True
      then have n': "n' = set_file_props f p m" using m(2) by (simp add: set_on_path_def)
      have "n_path (fold (row_effect p) fs n') = Some q" using True n' by simp
      then have "set_on_path q f p (fold (row_effect p) fs n') = set_file_props f p (fold (row_effect p) fs n')"
        by (simp add: set_on_path_def)
      also have "\<dots> = n'" unfolding n' by simp
      finally show ?thesis by (simp add: settled_def re)
    next
      case False
      then have n': "n' = m" using m(2) by (simp add: set_on_path_def)
      have "m \<in> set (nodes d)" using m(1) False by (auto simp: merge_file_def new_node_def split: if_splits)
      then have "fold (row_effect p) fs m = m" using snoc.IH[OF d(1)] by (simp add: settled_def)
      then show ?thesis using False n' by (simp add: settled_def re set_on_path_def)
    qed
  qed
qed

lemma settled_of_origin:
  assumes sat: "saturated fs db" and st: "\<forall>n \<in> set (nodes db). settled fs p n"
    and org: "endpoint_origin p db n'"
  shows "settled fs p n'"
proof -
  have some: "\<And>x. x \<in> f_path ` set fs \<Longrightarrow> \<exists>q. x = Some q \<and> has_path q db"
    using sat by (auto simp: saturated_def)
  consider (old) "n' \<in> set (nodes db)"
    | (upd) n where "n \<in> set (nodes db)" "n_projectUuid n = None" "n' = n\<lparr>n_projectUuid := Some p\<rparr>"
    | (new) i q where "\<not> has_path q db" "n' = (new_node i q)\<lparr>n_projectUuid := Some p\<rparr>"
    using org unfolding endpoint_origin_def by blast
  then show ?thesis
  proof cases
    case old
    then show ?thesis using st by blast
  next
    case upd
    have fx: "fold (row_effect p) fs n = n" using st upd(1) by (simp add: settled_def)
    have "n_path n \<notin> f_path ` set fs"
    proof
      assume a: "n_path n \<in> f_path ` set fs"
      then have "n_path n \<noteq> None" using some by fastforce
      from fold_row_effect_match[OF a this, of p] fx upd(2) show False by simp
    qed
    then have "n_path n' \<notin> f_path ` set fs" using upd(3) by simp
    then show ?thesis unfolding settled_def by (rule fold_row_effect_no_match)
  next
    case new
    have "n_path n' = Some q" using new(2) by (simp add: new_node_def)
    then have "n_path n' \<notin> f_path ` set fs" using some new(1) by fastforce
    then show ?thesis unfolding settled_def by (rule fold_row_effect_no_match)
  qed
qed

lemma online_merge_endpoint [simp]: "online (merge_endpoint p q db) = online db"
  by (simp add: merge_endpoint_def)

lemma online_merge_file [simp]: "online (merge_file q db) = online db"
  by (simp add: merge_file_def)

lemma upsert_pair_online: "upsert_pair p pr db = Inr db' \<Longrightarrow> online db' = online db"
  by (auto elim!: upsert_pair_Inr)

lemma upsert_file_online: "upsert_file p f db = Inr db' \<Longrightarrow> online db' = online db"
  by (auto elim!: upsert_file_Inr)

lemma unwind_pairs_online:
  assumes "unwind (upsert_pair p) prs db = Inr db'" shows "online db' = online db"
  by (rule unwind_invariant[where P = "\<lambda>d. online d = online db", OF assms])
     (auto dest: upsert_pair_online)

lemma unwind_files_online:
  assumes "unwind (upsert_file p) fs db = Inr db'" shows "online db' = online db"
  by (rule unwind_invariant[where P = "\<lambda>d. online d = online db", OF assms])
     (auto dest: upsert_file_online)

lemma on_match_other: "n_path n \<noteq> Some q \<Longrightarrow> on_match p q n = n"
  by (simp add: on_match_def)

lemma merge_endpoint_fixed:
  assumes "has_path q db" "\<forall>n \<in> set (nodes db). n_path n = Some q \<longrightarrow> n_projectUuid n \<noteq> None"
  shows "merge_endpoint p q db = db"
proof -
  have "\<And>n. n \<in> set (nodes db) \<Longrightarrow> on_match p q n = n"
    using assms(2) on_match_other on_match_fixed by metis
  then have "map (on_match p q) (nodes db) = nodes db" by (simp add: map_idI)
  then show ?thesis using assms(1) by (simp add: merge_endpoint_def)
qed

lemma linked_fixed:
  assumes "linked pr db"
  shows "upsert_pair p pr db = Inr db"
proof -
  from assms obtain qa where qa: "fst pr = Some qa" "has_path qa db" "has_path (snd pr) db"
    and uu: "\<forall>n \<in> set (nodes db). n_path n = Some qa \<or> n_path n = Some (snd pr)
              \<longrightarrow> n_projectUuid n \<noteq> None"
    and ed: "set (List.product (ids_with_path qa db) (ids_with_path (snd pr) db)) \<subseteq> set (edges db)"
    unfolding linked_def by blast
  have 1: "merge_endpoint p qa db = db"
    by (rule merge_endpoint_fixed[OF qa(2)]) (use uu in blast)
  have 2: "merge_endpoint p (snd pr) db = db"
    by (rule merge_endpoint_fixed[OF qa(3)]) (use uu in blast)
  show ?thesis
    using qa(1) fold_merge_rel_fixed[OF ed]
    by (simp add: upsert_pair_def 1 2)
qed

lemma unwind_fixed:
  "\<forall>r \<in> set rs. row r db = Inr db \<Longrightarrow> unwind row rs db = Inr db"
  by (induction rs) auto

lemma ids_with_path_merge_endpoint:
  assumes "has_path q db"
  shows "ids_with_path q (merge_endpoint p q' db) = ids_with_path q db"
proof (cases "has_path q' db")
  case True
  have "map nid (filter (\<lambda>n. n_path n = Some q) (map (on_match p q') xs))
        = map nid (filter (\<lambda>n. n_path n = Some q) xs)" for xs
    by (induction xs) auto
  then show ?thesis using True by (simp add: ids_with_path_def merge_endpoint_def)
next
  case False
  then have "q' \<noteq> q" using assms by auto
  then show ?thesis using False by (simp add: ids_with_path_def merge_endpoint_def new_node_def)
qed

lemma ids_with_path_nodes_cong: "nodes db = nodes db' \<Longrightarrow> ids_with_path q db = ids_with_path q db'"
  by (simp add: ids_with_path_def)

lemma edges_merge_endpoint [simp]: "edges (merge_endpoint p q db) = edges db"
  by (simp add: merge_endpoint_def)

lemma upsert_pair_ids:
  assumes "upsert_pair p pr db = Inr db'" "has_path q db"
  shows "ids_with_path q db' = ids_with_path q db"
proof -
  from assms(1) obtain qa where
    n: "nodes db' = nodes (merge_endpoint p (snd pr) (merge_endpoint p qa db))"
    by (rule upsert_pair_nodes)
  have "ids_with_path q db' = ids_with_path q (merge_endpoint p (snd pr) (merge_endpoint p qa db))"
    by (rule ids_with_path_nodes_cong[OF n])
  also have "\<dots> = ids_with_path q (merge_endpoint p qa db)"
    by (rule ids_with_path_merge_endpoint) (rule has_path_merge_endpoint_mono[OF assms(2)])
  also have "\<dots> = ids_with_path q db"
    by (rule ids_with_path_merge_endpoint[OF assms(2)])
  finally show ?thesis .
qed

lemma upsert_pair_edges_mono:
  assumes "upsert_pair p pr db = Inr db'"
  shows "set (edges db) \<subseteq> set (edges db')"
  using assms by (auto elim!: upsert_pair_Inr simp: edges_fold_merge_rel)

lemma origin_projectUuid:
  assumes "endpoint_origin p db n'"
    and "\<forall>n \<in> set (nodes db). n_path n = n_path n' \<longrightarrow> n_projectUuid n \<noteq> None"
  shows "n_projectUuid n' \<noteq> None"
  using assms unfolding endpoint_origin_def by auto

lemma linked_preserved:
  assumes l: "linked pr db" and u: "upsert_pair p pr' db = Inr db'"
  shows "linked pr db'"
proof -
  from l obtain qa where qa: "fst pr = Some qa" "has_path qa db" "has_path (snd pr) db"
    and uu: "\<forall>n \<in> set (nodes db). n_path n = Some qa \<or> n_path n = Some (snd pr)
              \<longrightarrow> n_projectUuid n \<noteq> None"
    and ed: "set (List.product (ids_with_path qa db) (ids_with_path (snd pr) db)) \<subseteq> set (edges db)"
    unfolding linked_def by blast
  have h1: "has_path qa db'" and h2: "has_path (snd pr) db'"
    using upsert_pair_has_path_mono[OF u] qa by blast+
  have uu': "\<forall>n \<in> set (nodes db'). n_path n = Some qa \<or> n_path n = Some (snd pr)
              \<longrightarrow> n_projectUuid n \<noteq> None"
  proof (intro ballI impI)
    fix n' assume n': "n' \<in> set (nodes db')" "n_path n' = Some qa \<or> n_path n' = Some (snd pr)"
    have "endpoint_origin p db n'" by (rule upsert_pair_origin[OF u n'(1)])
    then show "n_projectUuid n' \<noteq> None"
      by (rule origin_projectUuid) (use uu n'(2) in auto)
  qed
  have ed': "set (List.product (ids_with_path qa db') (ids_with_path (snd pr) db')) \<subseteq> set (edges db')"
    using ed upsert_pair_edges_mono[OF u] upsert_pair_ids[OF u qa(2)] upsert_pair_ids[OF u qa(3)]
    by auto
  show ?thesis unfolding linked_def using qa(1) h1 h2 uu' ed' by blast
qed

lemma merge_endpoint_projectUuid:
  assumes "n \<in> set (nodes (merge_endpoint p q db))" "n_path n = Some q"
  shows "n_projectUuid n \<noteq> None"
proof (cases "has_path q db")
  case True
  with assms(1) obtain m where m: "m \<in> set (nodes db)" "n = on_match p q m"
    by (auto simp: merge_endpoint_def)
  have "n_path m = Some q" using m(2) assms(2) by simp
  then show ?thesis using m(2) by (simp add: on_match_def coalesce_def split: option.splits)
next
  case False
  then have "n \<in> set (nodes db) \<or> n = (new_node (next_id db) q)\<lparr>n_projectUuid := Some p\<rparr>"
    using assms(1) by (auto simp: merge_endpoint_def)
  then show ?thesis using False assms(2) by (auto simp: has_path_def)
qed

lemma merge_endpoint_projectUuid_mono:
  assumes "\<forall>n \<in> set (nodes db). n_path n = Some q \<longrightarrow> n_projectUuid n \<noteq> None"
    and "n' \<in> set (nodes (merge_endpoint p q' db))" "n_path n' = Some q"
  shows "n_projectUuid n' \<noteq> None"
  using merge_endpoint_origin[OF assms(2)] assms(1,3)
  by (intro origin_projectUuid[where p = p and db = db]) auto

lemma upsert_pair_linked:
  assumes u: "upsert_pair p pr db = Inr db'"
  shows "linked pr db'"
proof -
  from u obtain qa where qa: "fst pr = Some qa"
    and db': "db' = fold merge_rel
            (List.product (ids_with_path qa (merge_endpoint p (snd pr) (merge_endpoint p qa db)))
                          (ids_with_path (snd pr) (merge_endpoint p (snd pr) (merge_endpoint p qa db))))
            (merge_endpoint p (snd pr) (merge_endpoint p qa db))"
    by (rule upsert_pair_Inr)
  let ?d1 = "merge_endpoint p qa db"
  let ?d2 = "merge_endpoint p (snd pr) ?d1"
  have n: "nodes db' = nodes ?d2" unfolding db' by simp
  have h1: "has_path qa db'" and h2: "has_path (snd pr) db'"
    using n by (auto simp: has_path_nodes_cong[OF n] intro: has_path_merge_endpoint_mono)
  have a: "\<forall>n \<in> set (nodes ?d1). n_path n = Some qa \<longrightarrow> n_projectUuid n \<noteq> None"
    using merge_endpoint_projectUuid by blast
  have uu: "\<forall>n \<in> set (nodes db'). n_path n = Some qa \<or> n_path n = Some (snd pr)
              \<longrightarrow> n_projectUuid n \<noteq> None"
    unfolding n using merge_endpoint_projectUuid_mono[OF a] merge_endpoint_projectUuid by blast
  have ed: "set (List.product (ids_with_path qa db') (ids_with_path (snd pr) db')) \<subseteq> set (edges db')"
    unfolding ids_with_path_nodes_cong[OF n] unfolding db' by (simp add: edges_fold_merge_rel)
  show ?thesis unfolding linked_def using qa h1 h2 uu ed by blast
qed

lemma unwind_pairs_linked:
  "unwind (upsert_pair p) prs db = Inr db' \<Longrightarrow> \<forall>pr \<in> set prs. linked pr db'"
proof (induction prs arbitrary: db)
  case Nil
  then show ?case by simp
next
  case (Cons pr prs)
  from Cons.prems obtain d where d: "upsert_pair p pr db = Inr d" "unwind (upsert_pair p) prs d = Inr db'"
    by (auto split: sum.splits)
  have "linked pr db'"
    by (rule unwind_invariant[where P = "linked pr", OF d(2) upsert_pair_linked[OF d(1)]])
       (rule linked_preserved)
  then show ?case using Cons.IH[OF d(2)] by simp
qed

lemma unwind_pairs_idempotent:
  assumes "unwind (upsert_pair p) prs db = Inr db'"
  shows "unwind (upsert_pair p) prs db' = Inr db'"
  by (rule unwind_fixed) (use unwind_pairs_linked[OF assms] linked_fixed in blast)

lemma upsert_pair_total: "fst pr \<noteq> None \<Longrightarrow> \<exists>db'. upsert_pair p pr db = Inr db'"
  by (auto simp: upsert_pair_def Let_def)

lemma unwind_total:
  "(\<And>r d. r \<in> set rs \<Longrightarrow> \<exists>d'. row r d = Inr d') \<Longrightarrow> \<exists>db'. unwind row rs db = Inr db'"
proof (induction rs arbitrary: db)
  case Nil
  then show ?case by simp
next
  case (Cons r rs)
  from Cons.prems[of r db] obtain d where d: "row r db = Inr d" by auto
  from Cons.IH[of d] Cons.prems obtain db' where "unwind row rs d = Inr db'" by auto
  then show ?case using d by auto
qed

lemma relPairs_from: "pr \<in> set (relPairs files) \<Longrightarrow> fst pr \<in> f_path ` set files"
  by (induction files) (auto split: option.splits if_splits)

lemmas eval_upsert =
  upsertNodes_def upsertEdgesStep_def upsertEdges_def executeWrite_def upsert_file_def
  upsert_pair_def merge_file_def merge_endpoint_def on_match_def set_on_path_def
  set_file_props_def has_path_def new_node_def ids_with_path_def merge_rel_def coalesce_def
  violates_unique_id_def add_token_def upsert_run_def blank_record_def empty_store_def
  the_store_def

section \<open>Lemmas about the degree counts and the community detection\<close>

lemma count_rows_optional [simp]: "count_rows (optional_match ms) = length ms"
  by (auto simp: count_rows_def optional_match_def filter_map comp_def)

lemma set_counts_eq: "set_counts d i f = (if nid f = i then recount d f else f)"
  by (simp add: set_counts_def recount_def)

lemma nid_recount [simp]: "nid (recount d f) = nid f"
  by (simp add: recount_def)

lemma recount_idem [simp]: "recount d (recount d f) = recount d f"
  by (simp add: recount_def)

lemma recount_edges_cong: "edges d = edges d' \<Longrightarrow> recount d = recount d'"
  by (auto simp: recount_def fun_eq_iff)

lemma count_loop:
  assumes "online d" "edges d = edges d0"
  shows "unwind (\<lambda>file. session_run (count_stmt (fst file))) rows d
         = Inr (d\<lparr>nodes := map (recount_in d0 (fst ` set rows)) (nodes d)\<rparr>)"
  using assms
proof (induction rows arbitrary: d)
  case Nil
  then show ?case by (simp add: recount_in_def)
next
  case (Cons r rows)
  let ?d1 = "count_stmt (fst r) d"
  have r0: "recount d = recount d0" by (rule recount_edges_cong[OF Cons.prems(2)])
  have 1: "session_run (count_stmt (fst r)) d = Inr ?d1" using Cons.prems(1) by (simp add: session_run_def)
  have on: "online ?d1" and ed: "edges ?d1 = edges d0"
    using Cons.prems by (simp_all add: count_stmt_def)
  have n1: "nodes ?d1 = map (recount_in d0 {fst r}) (nodes d)"
    by (simp add: count_stmt_def set_counts_eq recount_in_def r0)
  have comp: "recount_in d0 (fst ` set rows) (recount_in d0 {fst r} f)
              = recount_in d0 (fst ` set (r # rows)) f" for f
    by (auto simp: recount_in_def)
  have "?d1\<lparr>nodes := map (recount_in d0 (fst ` set rows)) (nodes ?d1)\<rparr>
        = d\<lparr>nodes := map (recount_in d0 (fst ` set (r # rows))) (nodes d)\<rparr>"
    unfolding n1 by (simp add: count_stmt_def comp_def comp)
  then show ?case using Cons.IH[OF on ed] 1 by simp
qed

lemma updateImportCounts_online:
  "online d \<Longrightarrow> updateImportCounts d = Inr (d\<lparr>nodes := map (recount d) (nodes d)\<rparr>)"
proof -
  assume on: "online d"
  have "\<And>f. f \<in> set (nodes d) \<Longrightarrow> recount_in d (fst ` set (match_files d)) f = recount d f"
    by (force simp: recount_in_def match_files_def)
  then have "map (recount_in d (fst ` set (match_files d))) (nodes d) = map (recount d) (nodes d)"
    by simp
  then show ?thesis
    using on count_loop[OF on refl, of "match_files d"] by (simp add: updateImportCounts_def)
qed

lemma updateImportCounts_Inr:
  assumes "updateImportCounts d = Inr d'"
  shows "d' = d\<lparr>nodes := map (recount d) (nodes d)\<rparr>" and "online d"
proof -
  show on: "online d" using assms by (auto simp: updateImportCounts_def split: if_splits)
  show "d' = d\<lparr>nodes := map (recount d) (nodes d)\<rparr>"
    using updateImportCounts_online[OF on] assms by simp
qed

lemmas eval_counts =
  updateImportCounts_def session_run_def match_files_def count_stmt_def set_counts_def
  count_rows_def optional_match_def new_node_def empty_store_def the_store_def

lemma map_of_filter_other [simp]:
  "map_of (filter (\<lambda>entry. fst entry \<noteq> name) c) name = None"
  by (induction c) auto

lemma project_graph_cong:
  "map nid (nodes d) = map nid (nodes d') \<Longrightarrow> edges d = edges d' \<Longrightarrow> project_graph d = project_graph d'"
  by (simp add: project_graph_def)

lemma gds_graph_drop_quiet:
  "gds_graph_drop name False d
   = Inr (d\<lparr>catalog := filter (\<lambda>entry. fst entry \<noteq> name) (catalog d)\<rparr>)"
proof (cases "map_of (catalog d) name")
  case None
  then have "name \<notin> fst ` set (catalog d)" by (simp add: map_of_eq_None_iff)
  then have "filter (\<lambda>entry. fst entry \<noteq> name) (catalog d) = catalog d"
    by (induction "catalog d") (auto simp: filter_id_conv)
  then show ?thesis using None by (simp add: gds_graph_drop_def)
next
  case (Some g)
  then show ?thesis by (simp add: gds_graph_drop_def)
qed

lemma detectCommunities_known:
  assumes "online d" "''File'' \<in> set (labels d)" "''IMPORTS'' \<in> set (rel_types d)"
  shows "detectCommunities lv d
         = (d\<lparr>catalog := (''importsGraph'', project_graph d)
                               # filter (\<lambda>entry. fst entry \<noteq> ''importsGraph'') (catalog d),
                nodes := map (with_cluster lv (project_graph d)) (nodes d)\<rparr>, None)"
proof -
  let ?d1 = "d\<lparr>catalog := filter (\<lambda>entry. fst entry \<noteq> ''importsGraph'') (catalog d)\<rparr>"
  let ?d2 = "d\<lparr>catalog := (''importsGraph'', project_graph d)
                               # filter (\<lambda>entry. fst entry \<noteq> ''importsGraph'') (catalog d)\<rparr>"
  have g: "project_graph ?d1 = project_graph d" by (simp add: project_graph_def)
  have 1: "gds_graph_drop ''importsGraph'' False d = Inr ?d1" by (rule gds_graph_drop_quiet)
  have 2: "gds_graph_project ''importsGraph'' ?d1 = Inr ?d2"
    using assms(2,3) by (simp add: gds_graph_project_def g)
  have "\<And>f. f \<in> set (nodes d) \<Longrightarrow> write_cluster lv (project_graph d) f = with_cluster lv (project_graph d) f"
    by (simp add: write_cluster_def with_cluster_def project_graph_def)
  then have m: "map (write_cluster lv (project_graph d)) (nodes d) = map (with_cluster lv (project_graph d)) (nodes d)"
    by simp
  have 3: "gds_louvain_write lv ''importsGraph'' ?d2
           = Inr (d\<lparr>catalog := (''importsGraph'', project_graph d)
                               # filter (\<lambda>entry. fst entry \<noteq> ''importsGraph'') (catalog d),
                  nodes := map (with_cluster lv (project_graph d)) (nodes d)\<rparr>)"
    by (simp add: gds_louvain_write_def m)
  show ?thesis
    unfolding detectCommunities_def using assms(1) by (simp add: 1 2 3)
qed

lemma detectCommunities_unknown:
  assumes "online d" "''File'' \<notin> set (labels d) \<or> ''IMPORTS'' \<notin> set (rel_types d)"
  shows "\<exists>e. detectCommunities lv d
         = (d\<lparr>catalog := filter (\<lambda>entry. fst entry \<noteq> ''importsGraph'') (catalog d)\<rparr>, Some e)"
proof -
  let ?d1 = "d\<lparr>catalog := filter (\<lambda>entry. fst entry \<noteq> ''importsGraph'') (catalog d)\<rparr>"
  have 1: "gds_graph_drop ''importsGraph'' False d = Inr ?d1" by (rule gds_graph_drop_quiet)
  have "\<exists>e. gds_graph_project ''importsGraph'' ?d1 = Inl e"
    using assms(2) by (auto simp: gds_graph_project_def)
  then obtain e where 2: "gds_graph_project ''importsGraph'' ?d1 = Inl e" by blast
  have "detectCommunities lv d = (?d1, Some e)"
    unfolding detectCommunities_def using assms(1) by (simp add: 1 2)
  then show ?thesis by blast
qed

lemma detectCommunities_ok:
  assumes "detectCommunities lv d = (d', None)"
  shows "d' = d\<lparr>catalog := (''importsGraph'', project_graph d)
                               # filter (\<lambda>entry. fst entry \<noteq> ''importsGraph'') (catalog d),
                  nodes := map (with_cluster lv (project_graph d)) (nodes d)\<rparr>"
proof -
  have on: "online d" using assms by (auto simp: detectCommunities_def split: if_splits)
  show ?thesis
  proof (cases "''File'' \<in> set (labels d) \<and> ''IMPORTS'' \<in> set (rel_types d)")
    case True
    then show ?thesis using detectCommunities_known[OF on, of lv] assms by simp
  next
    case False
    then have "''File'' \<notin> set (labels d) \<or> ''IMPORTS'' \<notin> set (rel_types d)" by blast
    from detectCommunities_unknown[OF on this, of lv] assms show ?thesis by auto
  qed
qed

lemmas eval_detect =
  detectCommunities_def executeWrite_def gds_graph_drop_def gds_graph_project_def
  gds_louvain_write_def write_cluster_def project_graph_def undirected_def each_alone_def
  new_node_def empty_store_def the_store_def

lemmas eval_pipeline =
  importRepo_def main_def try_body_def ensureConstraint_def open_session_def close_session_def
  create_constraint_def property_values_def List.map_filter_simps add_token_def
  normalize_files_def

section \<open>Lemmas about the pipeline\<close>

lemma f_path_normalize_record [simp]: "f_path (normalize_record nw rd k f) = f_path f"
  by (simp add: normalize_record_def Let_def)

lemma f_path_normalize_heap [simp]: "f_path (normalize_heap nw rd k h refs a) = f_path (h a)"
  by (induction refs arbitrary: h k) auto

lemma create_constraint_ok:
  "create_constraint prop d = Inr d' \<Longrightarrow> nodes d' = nodes d \<and> edges d' = edges d"
  by (auto simp: create_constraint_def split: if_splits)

lemma ensureConstraint_ok:
  assumes "ensureConstraint w = (w1, None)"
  shows "nodes (w_store w1) = nodes (w_store w)" and "edges (w_store w1) = edges (w_store w)"
proof -
  from assms obtain d1 d2 where
    1: "create_constraint ''path'' (w_store w) = Inr d1" and
    2: "create_constraint ''id'' d1 = Inr d2" and
    3: "w_store w1 = d2"
    by (auto simp: ensureConstraint_def executeWrite_def open_session_def close_session_def
          Let_def split: if_splits sum.splits)
  show "nodes (w_store w1) = nodes (w_store w)" and "edges (w_store w1) = edges (w_store w)"
    using create_constraint_ok[OF 1] create_constraint_ok[OF 2] 3 by simp_all
qed

lemma try_body_ok:
  assumes "try_body ev files p w = (w', None)"
  obtains w1 d2 d3 d4 d5 where
    "ensureConstraint w = (w1, None)"
    "upsertNodes files p (w_store w1) = Inr d2"
    "upsertEdgesStep files p d2 = Inr d3"
    "updateImportCounts d3 = Inr d4"
    "detectCommunities (e_louvain ev) d4 = (d5, None)"
    "w_store w' = d5"
  using assms unfolding try_body_def
  by (auto split: prod.splits option.splits sum.splits)

lemma importRepo_ok:
  assumes "importRepo ev h (Some refs) p w = out" "refs \<noteq> []" "o_caught out = None"
  obtains w' where
    "try_body ev (map (normalize_heap (e_now ev) (e_rnd ev) 0 h refs) refs) p (open_session w) = (w', None)"
    "w_store (o_world out) = w_store w'"
  using assms unfolding importRepo_def normalize_files_def
  by (auto split: prod.splits simp: close_session_def)

lemma shared_run_ok:
  "o_caught (importRepo run_env two_file_heap (Some [0, 1]) ''P2'' shared_world) = None"
  by (simp add: eval_pipeline eval_upsert eval_counts eval_detect shared_world_def run_env_def
        two_file_heap_def x_imports_y_def stale_p1_node_def normalize_record_def falsy_def Let_def
        fixed_clock_def two_suffixes_def make_id_def)

lemma shared_run_edges:
  "edges (w_store (o_world (importRepo run_env two_file_heap (Some [0, 1]) ''P2'' shared_world)))
   = [(1, 2)]"
  by (simp add: eval_pipeline eval_upsert eval_counts eval_detect shared_world_def run_env_def
        two_file_heap_def x_imports_y_def stale_p1_node_def normalize_record_def falsy_def Let_def
        fixed_clock_def two_suffixes_def make_id_def)

text \<open>
  The same run with a random generator that repeats itself: both records receive the
  same id, the node upsert is refused on the second, and the node of P1 is left as it was.
\<close>

lemma repeated_id_aborts_run:
  "o_caught (importRepo test_env two_file_heap (Some [0, 1]) ''P2'' shared_world)
     = Some (ConstraintViolation ''id'')
   \<and> nodes (w_store (o_world (importRepo test_env two_file_heap (Some [0, 1]) ''P2'' shared_world)))
     = [stale_p1_node]"
  by (simp add: eval_pipeline eval_upsert eval_counts eval_detect shared_world_def test_env_def
        two_file_heap_def x_imports_y_def stale_p1_node_def normalize_record_def falsy_def Let_def
        fixed_clock_def fixed_suffix_def)

text \<open>
  A first import in which no file imports another: the database has no token for the
  relationship type, the projection is refused and the run ends with that error.
\<close>

lemma import_without_imports_fails_projection:
  "o_caught (importRepo test_env solo_heap (Some [0]) ''proj1'' fresh_world)
     = Some (RelationshipTypeNotFound ''IMPORTS'')"
  by (simp add: eval_pipeline eval_upsert eval_counts eval_detect fresh_world_def test_env_def
        solo_heap_def normalize_record_def falsy_def Let_def)

text \<open>Whatever happens in the \<^verbatim>\<open>try\<close> block, a run on a non-empty list ends with status 0.\<close>

lemma importRepo_exit_status:
  "refs \<noteq> [] \<Longrightarrow>
   o_exit (importRepo ev h (Some refs) p w) = Some 0 \<and> o_thrown (importRepo ev h (Some refs) p w) = None"
  by (simp add: importRepo_def normalize_files_def split: prod.splits)

lemma main_status_zero:
  "4 \<le> argc \<Longrightarrow> refs \<noteq> [] \<Longrightarrow> main ev h argc (Some refs) p w = 0"
  using importRepo_exit_status[of refs ev h p w] by (simp add: main_def Let_def)

section \<open>Lemmas about the normalisation\<close>

lemma normalize_record_eq:
  "normalize_record nw rd k f
   = f\<lparr>f_description := Some (described f), f_id := Some (make_id (nw k) (rd k))\<rparr>"
  by (cases "f_description f") (auto simp: normalize_record_def falsy_def described_def Let_def)

lemma normalize_heap_outside:
  "a \<notin> set refs \<Longrightarrow> normalize_heap nw rd k h refs a = h a"
  by (induction refs arbitrary: h k) auto

lemma normalize_heap_nth:
  "distinct refs \<Longrightarrow> i < length refs \<Longrightarrow>
   normalize_heap nw rd k h refs (refs ! i) = normalize_record nw rd (k + i) (h (refs ! i))"
proof (induction refs arbitrary: h k i)
  case Nil
  then show ?case by simp
next
  case (Cons a refs)
  show ?case
  proof (cases i)
    case 0
    then show ?thesis using Cons.prems by (simp add: normalize_heap_outside)
  next
    case (Suc j)
    then have j: "j < length refs" and ne: "refs ! j \<noteq> a" using Cons.prems by auto
    have d: "distinct refs" using Cons.prems by simp
    let ?h1 = "h(a := normalize_record nw rd k (h a))"
    have "normalize_heap nw rd (Suc k) ?h1 refs (refs ! j)
          = normalize_record nw rd (Suc k + j) (?h1 (refs ! j))"
      by (rule Cons.IH[OF d j])
    then show ?thesis using ne Suc by simp
  qed
qed

lemma of_char_digit_char: "d < 10 \<Longrightarrow> (of_char (digit_char d) :: nat) = 48 + d"
proof -
  assume "d < 10"
  then have "d \<in> {0, 1, 2, 3, 4, 5, 6, 7, 8, 9}" by auto
  then show ?thesis by (auto simp: digit_char_def)
qed

lemma digit_char_inj: "d < 10 \<Longrightarrow> d' < 10 \<Longrightarrow> digit_char d = digit_char d' \<Longrightarrow> d = d'"
  using of_char_digit_char[of d] of_char_digit_char[of d'] by (metis add_left_cancel)

lemma digit_char_not_dash: "d < 10 \<Longrightarrow> digit_char d \<noteq> CHR ''-''"
proof
  assume d: "d < 10" and e: "digit_char d = CHR ''-''"
  have "(of_char (digit_char d) :: nat) = 48 + d" using d by (rule of_char_digit_char)
  moreover have "(of_char (CHR ''-'') :: nat) = 45" by simp
  ultimately show False using e by simp
qed

lemma decimal_not_Nil [simp]: "decimal n \<noteq> []" "[] \<noteq> decimal n"
  by (subst decimal.simps, simp)+

lemma decimal_no_dash: "CHR ''-'' \<notin> set (decimal n)"
proof (induction n rule: decimal.induct)
  case (1 n)
  show ?case
  proof (cases "n < 10")
    case True
    then show ?thesis using digit_char_not_dash[of n] by (subst decimal.simps) auto
  next
    case False
    have "n mod 10 < 10" by simp
    then have "digit_char (n mod 10) \<noteq> CHR ''-''" by (rule digit_char_not_dash)
    then show ?thesis using False 1 by (subst decimal.simps) auto
  qed
qed

lemma decimal_inj: "decimal n = decimal m \<Longrightarrow> n = m"
proof (induction n arbitrary: m rule: decimal.induct)
  case (1 n)
  show ?case
  proof (cases "n < 10")
    case n: True
    show ?thesis
    proof (cases "m < 10")
      case True
      then show ?thesis using n "1.prems" digit_char_inj[of n m]
        by (simp add: decimal.simps[of n] decimal.simps[of m])
    next
      case False
      then show ?thesis using n "1.prems"
        by (simp add: decimal.simps[of n] decimal.simps[of m])
    qed
  next
    case n: False
    show ?thesis
    proof (cases "m < 10")
      case True
      then show ?thesis using n "1.prems"
        by (simp add: decimal.simps[of n] decimal.simps[of m])
    next
      case False
      from "1.prems" n False
      have a: "decimal (n div 10) = decimal (m div 10)"
        and b: "digit_char (n mod 10) = digit_char (m mod 10)"
        by (simp_all add: decimal.simps[of n] decimal.simps[of m])
      have "n div 10 = m div 10" using "1.IH"[OF n a] .
      moreover have "n mod 10 = m mod 10" by (rule digit_char_inj[OF _ _ b]) simp_all
      ultimately show ?thesis by (metis div_mult_mod_eq)
    qed
  qed
qed

lemma split_at_first:
  assumes "xs @ c # ys = xs' @ c # ys'" "c \<notin> set xs" "c \<notin> set xs'"
  shows "xs = xs' \<and> ys = ys'"
proof -
  have "takeWhile (\<lambda>x. x \<noteq> c) (xs @ c # ys) = xs"
    using assms(2) by (subst takeWhile_append2) auto
  moreover have "takeWhile (\<lambda>x. x \<noteq> c) (xs' @ c # ys') = xs'"
    using assms(3) by (subst takeWhile_append2) auto
  ultimately have "xs = xs'" using assms(1) by simp
  then show ?thesis using assms(1) by simp
qed

lemma make_id_inj: "make_id t s = make_id t' s' \<Longrightarrow> t = t' \<and> s = s'"
proof -
  assume "make_id t s = make_id t' s'"
  then have "decimal t @ CHR ''-'' # s = decimal t' @ CHR ''-'' # s'" by (simp add: make_id_def)
  from split_at_first[OF this decimal_no_dash decimal_no_dash] decimal_inj show ?thesis by blast
qed

section \<open>Lemmas about the numeric conversion\<close>

lemma ints_of_convert [simp]: "ints_of (convertNeo4jValue tn v) = []"
  by (induction v) (auto simp: list.map_comp comp_def)

lemma shape_of_convert [simp]: "shape_of (convertNeo4jValue tn v) = shape_of v"
  by (induction v) (auto simp: list.map_comp comp_def prod.map_comp intro!: prod.map_cong0)

lemma numbers_of_convert [simp]: "numbers_of rd (convertNeo4jValue tn v) = numbers_of tn v"
proof (induction v)
  case (JArr vs)
  have "map (\<lambda>x. numbers_of rd (convertNeo4jValue tn x)) vs = map (numbers_of tn) vs"
    by (rule map_cong[OF refl]) (simp add: JArr)
  from arg_cong[OF this, of concat] show ?case by (simp add: comp_def)
next
  case (JObj kvs)
  have "map (\<lambda>kv. numbers_of rd (convertNeo4jValue tn (snd kv))) kvs = map (\<lambda>kv. numbers_of tn (snd kv)) kvs"
    by (rule map_cong[OF refl]) (auto simp: JObj snds.simps)
  from arg_cong[OF this, of concat] show ?case by (simp add: comp_def)
qed simp_all

lemma numbers_of_cong:
  "\<forall>i \<in> set (ints_of v). rd i = rd' i \<Longrightarrow> numbers_of rd v = numbers_of rd' v"
proof (induction v)
  case (JArr vs)
  have "map (numbers_of rd) vs = map (numbers_of rd') vs"
    by (rule map_cong[OF refl]) (use JArr in auto)
  from arg_cong[OF this, of concat] show ?case by simp
next
  case (JObj kvs)
  have "map (\<lambda>kv. numbers_of rd (snd kv)) kvs = map (\<lambda>kv. numbers_of rd' (snd kv)) kvs"
    by (rule map_cong[OF refl]) (use JObj in \<open>force simp: snds.simps\<close>)
  from arg_cong[OF this, of concat] show ?case by (simp add: comp_def)
qed simp_all

lemma excess_bits_small: "m < 2 ^ 53 \<Longrightarrow> excess_bits m = 0"
  by (subst excess_bits.simps) simp

lemma nearest_double_exact:
  assumes "\<bar>n\<bar> \<le> 2 ^ 53"
  shows "nearest_double n = n"
proof (cases "\<bar>n\<bar> < 2 ^ 53")
  case True
  then have "nat \<bar>n\<bar> < 2 ^ 53" by simp
  then have "excess_bits (nat \<bar>n\<bar>) = 0" by (rule excess_bits_small)
  then show ?thesis by (simp add: nearest_double_def Let_def sgn_if)
next
  case False
  then have m: "\<bar>n\<bar> = 9007199254740992" using assms by simp
  have "excess_bits 9007199254740992 = Suc (excess_bits 4503599627370496)"
    by (subst excess_bits.simps) simp
  also have "excess_bits 4503599627370496 = 0" by (rule excess_bits_small) simp
  finally have e: "excess_bits 9007199254740992 = 1" by simp
  have "n = 9007199254740992 \<or> n = - 9007199254740992" using m by linarith
  then show ?thesis by (auto simp: nearest_double_def Let_def e)
qed

lemma Integer_toNumber_exact:
  "\<bar>sint i\<bar> \<le> 2 ^ 53 \<Longrightarrow> Integer_toNumber i = real_of_int (sint i)"
  by (simp add: Integer_toNumber_def nearest_double_exact)

section \<open>Idempotent upsert\<close>

text \<open>
  C1. For every list of records, every project scope and every store: running the node
  upsert followed by the edge upsert a second time, on the same input, leaves the very
  store the first run left. So the second run leaves the same nodes, one per path as
  before, and the same IMPORTS relationships, and creates no duplicate of either. (A
  step that fails, on a record without path or on an id another node holds, writes
  nothing; when the second node upsert goes through, it matches every node and writes
  the values that are there.)
\<close>

theorem upsert_twice_same_graph:
  "upsert_run files projectUuid (upsert_run files projectUuid db)
   = upsert_run files projectUuid db"
proof (cases "upsertNodes files projectUuid db")
  case (Inl e)
  then show ?thesis by (simp add: upsert_run_def)
next
  case (Inr db1)
  note n = upsertNodes_cases[OF Inr]
  have on1: "online db1" using unwind_files_online[OF n(1)] n(2) by simp
  have sat1: "saturated files db1" by (rule unwind_files_saturated[OF n(1)])
  have st1: "\<forall>n \<in> set (nodes db1). settled files projectUuid n" by (rule unwind_files_settled[OF n(1)])
  have "\<And>pr d. pr \<in> set (relPairs files) \<Longrightarrow> \<exists>d'. upsert_pair projectUuid pr d = Inr d'"
  proof (rule upsert_pair_total)
    fix pr assume "pr \<in> set (relPairs files)"
    then have "fst pr \<in> f_path ` set files" by (rule relPairs_from)
    then show "fst pr \<noteq> None" using sat1 by (auto simp: saturated_def)
  qed
  then obtain db2 where e: "unwind (upsert_pair projectUuid) (relPairs files) db1 = Inr db2"
    using unwind_total[of "relPairs files" "upsert_pair projectUuid" db1] by blast
  have on2: "online db2" using unwind_pairs_online[OF e] on1 by simp
  have step1: "upsertEdgesStep files projectUuid db1 = Inr db2"
    using e on1 by (auto simp: upsertEdgesStep_def upsertEdges_def executeWrite_def)
  have run: "upsert_run files projectUuid db = db2"
    using Inr step1 by (simp add: upsert_run_def)
  have sat2: "saturated files db2"
    using sat1 unwind_pairs_has_path_mono[OF e] unfolding saturated_def by blast
  have st2: "\<forall>n \<in> set (nodes db2). settled files projectUuid n"
    using settled_of_origin[OF sat1 st1] unwind_pairs_origin[OF e] by blast
  have step3: "upsertEdgesStep files projectUuid db2 = Inr db2"
    using unwind_pairs_idempotent[OF e] on2
    by (auto simp: upsertEdgesStep_def upsertEdges_def executeWrite_def)
  show ?thesis
  proof (cases "upsertNodes files projectUuid db2")
    case (Inl e')
    then show ?thesis unfolding run by (simp add: upsert_run_def)
  next
    case again: (Inr d')
    have "d' = db2"
      by (rule unwind_files_fixed[OF sat2 st2 upsertNodes_cases(1)[OF again]])
    then show ?thesis unfolding run using again step3 by (simp add: upsert_run_def)
  qed
qed

text \<open>
  The theorem at work where the second run does not go through. With the constraints
  declared, the first run gives \<^verbatim>\<open>p\<close> the id A, then B, and \<^verbatim>\<open>q\<close> the id A. The
  second node upsert is refused at once, \<^verbatim>\<open>q\<close> holding the id it wants to write to
  \<^verbatim>\<open>p\<close>, and the store stays as the first run left it.
\<close>

theorem upsert_twice_same_graph_witness:
  "map (\<lambda>f. (n_path f, n_id f)) (nodes (upsert_run repeated_path_records ''proj1'' constrained_store))
     = [(Some ''p'', Some ''B''), (Some ''q'', Some ''A'')]
   \<and> upsertNodes repeated_path_records ''proj1''
        (upsert_run repeated_path_records ''proj1'' constrained_store)
     = Inl (ConstraintViolation ''id'')
   \<and> upsert_run repeated_path_records ''proj1''
        (upsert_run repeated_path_records ''proj1'' constrained_store)
     = upsert_run repeated_path_records ''proj1'' constrained_store"
proof -
  have a: "map (\<lambda>f. (n_path f, n_id f)) (nodes (upsert_run repeated_path_records ''proj1'' constrained_store))
     = [(Some ''p'', Some ''B''), (Some ''q'', Some ''A'')]"
    by (simp add: eval_upsert repeated_path_records_def constrained_store_def)
  have b: "upsertNodes repeated_path_records ''proj1''
        (upsert_run repeated_path_records ''proj1'' constrained_store)
     = Inl (ConstraintViolation ''id'')"
    by (simp add: eval_upsert repeated_path_records_def constrained_store_def)
  from upsert_twice_same_graph[of repeated_path_records "''proj1''" constrained_store] a b
  show ?thesis by blast
qed

text \<open>The same on the two records of the end-to-end scenario, where every step goes through.\<close>

lemma upsert_twice_end_to_end:
  "upsertNodes x_imports_y ''proj1'' (upsert_run x_imports_y ''proj1'' empty_store)
     = Inr (upsert_run x_imports_y ''proj1'' empty_store)
   \<and> upsertEdgesStep x_imports_y ''proj1'' (upsert_run x_imports_y ''proj1'' empty_store)
     = Inr (upsert_run x_imports_y ''proj1'' empty_store)"
  by (simp add: eval_upsert x_imports_y_def)

section \<open>The exit status after a store error\<close>

text \<open>
  C2. The specification has the process end with a non-zero status after a store error,
  the error reaching the top level. The code does not: with a store that does not answer,
  the first statement fails with \<open>ServiceUnavailable\<close>, the \<^verbatim>\<open>catch\<close> block sees it,
  and the \<^verbatim>\<open>finally\<close> block ends the process with status 0 before the error thrown
  again can reach anybody; the script's status is 0. The same happens when the node
  upsert fails on a record without path.
\<close>

theorem store_error_exits_zero:
  "o_caught (importRepo test_env one_file_heap (Some [0]) ''proj1'' offline_world) = Some ServiceUnavailable
   \<and> o_exit (importRepo test_env one_file_heap (Some [0]) ''proj1'' offline_world) = Some 0
   \<and> o_thrown (importRepo test_env one_file_heap (Some [0]) ''proj1'' offline_world) = None
   \<and> main test_env one_file_heap 4 (Some [0]) ''proj1'' offline_world = 0
   \<and> o_caught (importRepo test_env pathless_heap (Some [0]) ''proj1'' fresh_world)
       = Some (NullMergeProperty ''path'')
   \<and> main test_env pathless_heap 4 (Some [0]) ''proj1'' fresh_world = 0"
  by (simp add: eval_pipeline eval_upsert offline_world_def fresh_world_def test_env_def
        one_file_heap_def pathless_heap_def normalize_record_def falsy_def Let_def)

section \<open>Degree aggregate correctness\<close>

text \<open>
  C3. After the degree recompute completes, on any store, the relationships and the
  nodes' identities are as before, and every File node has \<open>importCount\<close> equal to the
  number of IMPORTS relationships that leave it and \<open>importedByCount\<close> equal to the number
  that enter it. The theorem after this one runs it on the graph a\<rightarrow>b, a\<rightarrow>c, d\<rightarrow>b:
  a has 2 and 0, b has 0 and 2, c has 0 and 1, d has 1 and 0.
\<close>

theorem degree_counts_correct:
  assumes "updateImportCounts d = Inr d'"
  shows "edges d' = edges d
       \<and> map nid (nodes d') = map nid (nodes d)
       \<and> (\<forall>f \<in> set (nodes d').
             n_importCount f = Some (length (filter (\<lambda>e. fst e = nid f) (edges d')))
           \<and> n_importedByCount f = Some (length (filter (\<lambda>e. snd e = nid f) (edges d'))))"
proof -
  note r = updateImportCounts_Inr(1)[OF assms]
  have e: "edges d' = edges d" unfolding r by simp
  have i: "map nid (nodes d') = map nid (nodes d)" unfolding r by (simp add: comp_def)
  have "\<forall>f \<in> set (nodes d').
             n_importCount f = Some (length (filter (\<lambda>e. fst e = nid f) (edges d)))
           \<and> n_importedByCount f = Some (length (filter (\<lambda>e. snd e = nid f) (edges d)))"
    unfolding r by (auto simp: recount_def)
  then show ?thesis using e i by simp
qed

text \<open>The graph a\<rightarrow>b, a\<rightarrow>c, d\<rightarrow>b.\<close>

theorem degree_counts_correct_witness:
  "updateImportCounts abcd_store = Inr (the_store (updateImportCounts abcd_store))
   \<and> edges (the_store (updateImportCounts abcd_store)) = [(0, 1), (0, 2), (3, 1)]
   \<and> map (\<lambda>f. (n_path f, n_importCount f, n_importedByCount f))
         (nodes (the_store (updateImportCounts abcd_store)))
       = [(Some ''a'', Some 2, Some 0), (Some ''b'', Some 0, Some 2),
          (Some ''c'', Some 0, Some 1), (Some ''d'', Some 1, Some 0)]"
proof -
  let ?d' = "the_store (updateImportCounts abcd_store)"
  have h: "updateImportCounts abcd_store = Inr ?d'"
    by (simp add: eval_counts abcd_store_def)
  note t = degree_counts_correct[OF h]
  have e: "edges ?d' = [(0, 1), (0, 2), (3, 1)]"
    using t by (simp add: abcd_store_def empty_store_def)
  have ids: "map (\<lambda>f. (nid f, n_path f)) (nodes ?d')
             = [(0, Some ''a''), (1, Some ''b''), (2, Some ''c''), (3, Some ''d'')]"
    by (simp add: eval_counts abcd_store_def)
  then obtain a b c d where n: "nodes ?d' = [a, b, c, d]"
    and a: "nid a = 0" "n_path a = Some ''a''" and b: "nid b = 1" "n_path b = Some ''b''"
    and c: "nid c = 2" "n_path c = Some ''c''" and d: "nid d = 3" "n_path d = Some ''d''"
    by (auto simp: map_eq_Cons_conv)
  have "n_importCount a = Some 2" "n_importedByCount a = Some 0"
       "n_importCount b = Some 0" "n_importedByCount b = Some 2"
       "n_importCount c = Some 0" "n_importedByCount c = Some 1"
       "n_importCount d = Some 1" "n_importedByCount d = Some 0"
    using t unfolding e n by (simp_all add: a b c d)
  then show ?thesis using h e by (simp add: n a b c d)
qed

section \<open>Cross-project non-overwrite\<close>




section \<open>Merge creates missing endpoints\<close>

text \<open>
  C5. The edge upsert run on the single record \<^verbatim>\<open>{path: "a.pl", importFiles: ["b.pl"]}\<close>
  against an empty store, with no record for \<^verbatim>\<open>b.pl\<close>, leaves exactly two File nodes,
  \<^verbatim>\<open>a.pl\<close> and \<^verbatim>\<open>b.pl\<close>, and exactly one IMPORTS relationship, from the first to the
  second; the implicitly created \<^verbatim>\<open>b.pl\<close> carries its path and the batch's
  projectUuid and no other property.
\<close>

theorem upsertEdges_creates_missing_endpoint:
  "upsertEdgesStep [blank_record\<lparr>f_path := Some ''a.pl'', f_importFiles := Some [''b.pl'']\<rparr>]
       projectUuid empty_store
   = Inr (empty_store\<lparr>
       nodes :=
         [\<lparr>nid = 0, n_path = Some ''a.pl'', n_externalImports = None,
           n_projectUuid = Some projectUuid, n_name = None, n_loc = None,
           n_description = None, n_id = None, n_importCount = None,
           n_importedByCount = None, n_clusterId = None\<rparr>,
          \<lparr>nid = 1, n_path = Some ''b.pl'', n_externalImports = None,
           n_projectUuid = Some projectUuid, n_name = None, n_loc = None,
           n_description = None, n_id = None, n_importCount = None,
           n_importedByCount = None, n_clusterId = None\<rparr>],
       edges := [(0, 1)],
       next_id := 2,
       labels := [''File''],
       rel_types := [''IMPORTS'']\<rparr>)"
  by (simp add: upsertEdgesStep_def upsertEdges_def executeWrite_def upsert_pair_def
        merge_endpoint_def on_match_def has_path_def new_node_def ids_with_path_def merge_rel_def
        add_token_def blank_record_def empty_store_def coalesce_def)

section \<open>Normalising the records in place\<close>

text \<open>
  C6, as amended. For every array of references to distinct records, the normalisation
  returns the same references in the same order. It is not a pure function: it reads the
  clock and the random generator, and it changes the records it is given. After it, the
  record at position \<open>i\<close> is the one that was there, with \<open>description\<close> set (to the empty
  string when it was absent or empty, else unchanged) and with \<open>id\<close> set to the text made
  of the clock's reading and the random characters of the \<open>i\<close>-th call; records outside the
  array are untouched. Two records receive different ids whenever the clock's reading or
  the random characters differ between their two calls.
\<close>

theorem normalize_files_in_place:
  assumes "distinct refs" and "normalize_files nw rd h refs = (h', refs')"
  shows "refs' = refs
       \<and> (\<forall>i < length refs.
            h' (refs ! i)
            = (h (refs ! i))\<lparr>f_description :=
                                Some (case f_description (h (refs ! i)) of None \<Rightarrow> [] | Some s \<Rightarrow> s),
                             f_id := Some (make_id (nw i) (rd i))\<rparr>)
       \<and> (\<forall>a. a \<notin> set refs \<longrightarrow> h' a = h a)
       \<and> (\<forall>i < length refs. \<forall>j < length refs.
            (nw i, rd i) \<noteq> (nw j, rd j) \<longrightarrow> f_id (h' (refs ! i)) \<noteq> f_id (h' (refs ! j)))"
proof -
  have h': "h' = normalize_heap nw rd 0 h refs" and r: "refs' = refs"
    using assms(2) by (auto simp: normalize_files_def)
  have at: "h' (refs ! i)
            = (h (refs ! i))\<lparr>f_description :=
                                Some (case f_description (h (refs ! i)) of None \<Rightarrow> [] | Some s \<Rightarrow> s),
                             f_id := Some (make_id (nw i) (rd i))\<rparr>" if "i < length refs" for i
    unfolding h' using normalize_heap_nth[OF assms(1) that, of nw rd 0 h]
    by (simp add: normalize_record_eq described_def)
  have out: "\<forall>a. a \<notin> set refs \<longrightarrow> h' a = h a"
    unfolding h' by (simp add: normalize_heap_outside)
  have uniq: "f_id (h' (refs ! i)) \<noteq> f_id (h' (refs ! j))"
    if "i < length refs" "j < length refs" "(nw i, rd i) \<noteq> (nw j, rd j)" for i j
    using at[OF that(1)] at[OF that(2)] that(3) make_id_inj[of "nw i" "rd i" "nw j" "rd j"]
    by auto
  show ?thesis using r at out uniq by blast
qed

text \<open>The theorem at work on the two records of the end-to-end scenario.\<close>

theorem normalize_files_in_place_witness:
  "distinct [0 :: nat, 1]
   \<and> normalize_files fixed_clock two_suffixes two_file_heap [0, 1]
       = (fst (normalize_files fixed_clock two_suffixes two_file_heap [0, 1]), [0, 1])
   \<and> f_id (fst (normalize_files fixed_clock two_suffixes two_file_heap [0, 1]) 0)
       = Some (make_id 1700000000000 ''k3x9q2a'')
   \<and> f_id (fst (normalize_files fixed_clock two_suffixes two_file_heap [0, 1]) 0)
       \<noteq> f_id (fst (normalize_files fixed_clock two_suffixes two_file_heap [0, 1]) 1)"
proof -
  let ?h' = "fst (normalize_files fixed_clock two_suffixes two_file_heap [0, 1])"
  have d: "distinct [0 :: nat, 1]" by simp
  have e: "normalize_files fixed_clock two_suffixes two_file_heap [0, 1] = (?h', [0, 1])"
    by (simp add: normalize_files_def)
  note t = normalize_files_in_place[OF d e]
  have ne: "(fixed_clock 0, two_suffixes 0) \<noteq> (fixed_clock 1, two_suffixes 1)"
    by (simp add: two_suffixes_def)
  have q: "\<And>i j. i < length [0 :: nat, 1] \<Longrightarrow> j < length [0 :: nat, 1] \<Longrightarrow>
              (fixed_clock i, two_suffixes i) \<noteq> (fixed_clock j, two_suffixes j) \<Longrightarrow>
              f_id (?h' ([0, 1] ! i)) \<noteq> f_id (?h' ([0, 1] ! j))"
    using t by blast
  have a: "\<And>i. i < length [0 :: nat, 1] \<Longrightarrow>
              f_id (?h' ([0, 1] ! i)) = Some (make_id (fixed_clock i) (two_suffixes i))"
    using t by simp
  have "f_id (?h' ([0, 1] ! 0)) \<noteq> f_id (?h' ([0, 1] ! 1))"
    by (rule q) (simp_all add: two_suffixes_def)
  moreover have "f_id (?h' ([0, 1] ! 0)) = Some (make_id 1700000000000 ''k3x9q2a'')"
    using a[of 0] by (simp add: fixed_clock_def two_suffixes_def)
  ultimately show ?thesis using d e by simp
qed

text \<open>
  The record the caller passed in has neither description nor id before the call and has
  both after it: the input is mutated. And when the clock's reading and the random
  characters repeat, two records receive the same id.
\<close>

theorem normalize_mutates_its_input:
  "f_description (one_file_heap 0) = None
   \<and> f_id (one_file_heap 0) = None
   \<and> f_description (fst (normalize_files fixed_clock fixed_suffix one_file_heap [0]) 0) = Some []
   \<and> f_id (fst (normalize_files fixed_clock fixed_suffix one_file_heap [0]) 0)
       = Some ''1700000000000-k3x9q2a''
   \<and> f_id (fst (normalize_files fixed_clock fixed_suffix two_file_heap [0, 1]) 0)
       = f_id (fst (normalize_files fixed_clock fixed_suffix two_file_heap [0, 1]) 1)"
  by (simp add: normalize_files_def normalize_record_def falsy_def one_file_heap_def
        a_imports_b_def blank_record_def fixed_clock_def fixed_suffix_def make_id_def
        digit_char_def two_file_heap_def x_imports_y_def Let_def decimal.simps)

section \<open>The cycle of community detection\<close>

text \<open>
  C7, as amended. Every call of the community detection on a store that answers first
  drops the projection named \<^verbatim>\<open>importsGraph\<close> if there is one, without failing when
  there is none. When the database knows the label File and the relationship type
  IMPORTS, the call then succeeds: it builds the projection of all File nodes with every
  IMPORTS relationship in both directions and writes to every node of the store the
  community the algorithm gives it, leaving the relationships as they were; it does not
  drop the projection at the end, so the call ends with the new projection in the
  catalogue, where it stays until the next call drops it. When the label or the type is
  unknown, as after a first import in which no file imports another, the projection is
  refused: the call ends with an error, with no projection of that name, and with nodes
  and relationships as they were.
\<close>

theorem detectCommunities_leaves_projection:
  assumes "online d"
  shows "(''File'' \<in> set (labels d) \<and> ''IMPORTS'' \<in> set (rel_types d) \<longrightarrow>
           (\<exists>d'. detectCommunities lv d = (d', None)
              \<and> map_of (catalog d') ''importsGraph'' = Some (project_graph d)
              \<and> g_nodes (project_graph d) = map nid (nodes d)
              \<and> g_rels (project_graph d) = edges d @ map (\<lambda>e. (snd e, fst e)) (edges d)
              \<and> nodes d' = map (\<lambda>f. f\<lparr>n_clusterId := Some (lv (project_graph d) (nid f))\<rparr>) (nodes d)
              \<and> edges d' = edges d))
       \<and> (\<not> (''File'' \<in> set (labels d) \<and> ''IMPORTS'' \<in> set (rel_types d)) \<longrightarrow>
           (\<exists>d' e. detectCommunities lv d = (d', Some e)
              \<and> map_of (catalog d') ''importsGraph'' = None
              \<and> nodes d' = nodes d
              \<and> edges d' = edges d))"
proof (intro conjI impI)
  assume k: "''File'' \<in> set (labels d) \<and> ''IMPORTS'' \<in> set (rel_types d)"
  have w: "with_cluster lv (project_graph d) = (\<lambda>f. f\<lparr>n_clusterId := Some (lv (project_graph d) (nid f))\<rparr>)"
    by (auto simp: with_cluster_def fun_eq_iff)
  show "\<exists>d'. detectCommunities lv d = (d', None)
              \<and> map_of (catalog d') ''importsGraph'' = Some (project_graph d)
              \<and> g_nodes (project_graph d) = map nid (nodes d)
              \<and> g_rels (project_graph d) = edges d @ map (\<lambda>e. (snd e, fst e)) (edges d)
              \<and> nodes d' = map (\<lambda>f. f\<lparr>n_clusterId := Some (lv (project_graph d) (nid f))\<rparr>) (nodes d)
              \<and> edges d' = edges d"
    unfolding detectCommunities_known[OF assms conjunct1[OF k] conjunct2[OF k]]
    using w by (simp add: project_graph_def undirected_def)
next
  assume "\<not> (''File'' \<in> set (labels d) \<and> ''IMPORTS'' \<in> set (rel_types d))"
  then have "''File'' \<notin> set (labels d) \<or> ''IMPORTS'' \<notin> set (rel_types d)" by blast
  from detectCommunities_unknown[OF assms this, of lv] obtain e where
    "detectCommunities lv d
       = (d\<lparr>catalog := filter (\<lambda>entry. fst entry \<noteq> ''importsGraph'') (catalog d)\<rparr>, Some e)"
    by blast
  then show "\<exists>d' e. detectCommunities lv d = (d', Some e)
              \<and> map_of (catalog d') ''importsGraph'' = None
              \<and> nodes d' = nodes d
              \<and> edges d' = edges d"
    by simp
qed

text \<open>
  The theorem at work on a store whose catalogue still holds an old projection, and on the
  empty store, where neither the label nor the type is known.
\<close>

theorem detectCommunities_leaves_projection_witness:
  "online stale_projection_store
   \<and> ''File'' \<in> set (labels stale_projection_store)
   \<and> ''IMPORTS'' \<in> set (rel_types stale_projection_store)
   \<and> (\<exists>d'. detectCommunities each_alone stale_projection_store = (d', None)
           \<and> map_of (catalog d') ''importsGraph'' = Some (project_graph stale_projection_store)
           \<and> g_nodes (project_graph stale_projection_store) = map nid (nodes stale_projection_store)
           \<and> g_rels (project_graph stale_projection_store)
               = edges stale_projection_store @ map (\<lambda>e. (snd e, fst e)) (edges stale_projection_store)
           \<and> nodes d' = map (\<lambda>f. f\<lparr>n_clusterId := Some (each_alone (project_graph stale_projection_store) (nid f))\<rparr>)
                            (nodes stale_projection_store)
           \<and> edges d' = edges stale_projection_store)
   \<and> online empty_store
   \<and> ''File'' \<notin> set (labels empty_store)
   \<and> (\<exists>d' e. detectCommunities each_alone empty_store = (d', Some e)
           \<and> map_of (catalog d') ''importsGraph'' = None
           \<and> nodes d' = nodes empty_store
           \<and> edges d' = edges empty_store)"
proof -
  have h: "online stale_projection_store"
    by (simp add: stale_projection_store_def abcd_store_def empty_store_def)
  have k: "''File'' \<in> set (labels stale_projection_store)"
       "''IMPORTS'' \<in> set (rel_types stale_projection_store)"
    by (simp_all add: stale_projection_store_def abcd_store_def empty_store_def)
  have h0: "online empty_store" and k0: "''File'' \<notin> set (labels empty_store)"
    by (simp_all add: empty_store_def)
  from detectCommunities_leaves_projection[OF h, of each_alone]
       detectCommunities_leaves_projection[OF h0, of each_alone] h k h0 k0
  show ?thesis by blast
qed

text \<open>
  The call does not end without a projection: after it the catalogue holds the
  projection it built.
\<close>

theorem projection_remains_after_detection:
  "snd (detectCommunities each_alone abcd_store) = None
   \<and> map_of (catalog (fst (detectCommunities each_alone abcd_store))) ''importsGraph''
       = Some \<lparr>g_nodes = [0, 1, 2, 3],
               g_rels = [(0, 1), (0, 2), (3, 1), (1, 0), (2, 0), (1, 3)]\<rparr>"
  by (simp add: eval_detect abcd_store_def)

section \<open>Numeric conversion\<close>

text \<open>
  C8, as amended. For every value and whatever the driver's \<open>toNumber\<close> computes, the
  conversion leaves no store integer anywhere in the result, keeps the shape of the value
  (strings, booleans, nulls, arrays, objects, their keys and their order), and puts at the
  place of each store integer the native number \<open>toNumber\<close> gives for it, native numbers
  staying as they were. With the driver's conversion to double precision, each of these
  numbers equals the integer written when every store integer of the value has a
  magnitude of at most \<open>2^53\<close>.
\<close>

theorem convertNeo4jValue_converts_every_integer:
  "ints_of (convertNeo4jValue toNumber v) = []
   \<and> shape_of (convertNeo4jValue toNumber v) = shape_of v
   \<and> numbers_of rd (convertNeo4jValue toNumber v) = numbers_of toNumber v
   \<and> ((\<forall>i \<in> set (ints_of v). \<bar>sint i\<bar> \<le> 2 ^ 53) \<longrightarrow>
        numbers_of rd (convertNeo4jValue Integer_toNumber v)
        = numbers_of (\<lambda>i. real_of_int (sint i)) v)"
proof -
  have "numbers_of Integer_toNumber v = numbers_of (\<lambda>i. real_of_int (sint i)) v"
    if "\<forall>i \<in> set (ints_of v). \<bar>sint i\<bar> \<le> 2 ^ 53"
    by (rule numbers_of_cong) (use that Integer_toNumber_exact in auto)
  then show ?thesis by simp
qed

text \<open>The theorem at work on a row with store integers inside an object and an array.\<close>

theorem convertNeo4jValue_converts_every_integer_witness:
  "ints_of sample_row = [2, 7]
   \<and> ints_of (convertNeo4jValue Integer_toNumber sample_row) = []
   \<and> shape_of (convertNeo4jValue Integer_toNumber sample_row) = shape_of sample_row
   \<and> numbers_of Integer_toNumber (convertNeo4jValue Integer_toNumber sample_row) = [2, 7, 1.5]"
proof -
  have i: "ints_of sample_row = [2, 7]" by (simp add: sample_row_def)
  have h: "\<forall>i \<in> set (ints_of sample_row). \<bar>sint i\<bar> \<le> 2 ^ 53"
    unfolding i by simp
  have n: "numbers_of (\<lambda>i. real_of_int (sint i)) sample_row = [2, 7, 1.5]"
    by (simp add: sample_row_def)
  from convertNeo4jValue_converts_every_integer[of Integer_toNumber sample_row Integer_toNumber] h n i
  show ?thesis by simp
qed

text \<open>
  Beyond \<open>2^53\<close> the number returned is not the integer written: \<open>2^53 + 1\<close> comes
  back as \<open>2^53\<close>.
\<close>

theorem toNumber_loses_large_integers:
  "sint (9007199254740993 :: 64 word) = 9007199254740993
   \<and> convertNeo4jValue Integer_toNumber (JInt 9007199254740993) = JNum 9007199254740992"
proof -
  have s: "sint (9007199254740993 :: 64 word) = 9007199254740993" by simp
  have "excess_bits 9007199254740993 = Suc (excess_bits 4503599627370496)"
    by (subst excess_bits.simps) simp
  also have "excess_bits 4503599627370496 = 0" by (rule excess_bits_small) simp
  finally have e: "excess_bits 9007199254740993 = 1" by simp
  have "nearest_double 9007199254740993 = 9007199254740992"
    by (simp add: nearest_double_def Let_def e)
  then show ?thesis using s by (simp add: Integer_toNumber_def)
qed

section \<open>No files, no work\<close>

text \<open>
  C9. When the file list is null, undefined or empty, \<open>importRepo\<close> returns at once: no
  session is opened or closed and the store is the one it was given, so no constraint is
  declared, no node or relationship written, no count recomputed and no community
  detected; the heap is untouched, nothing is caught or thrown and \<^verbatim>\<open>process.exit\<close>
  is not called.
\<close>

theorem importRepo_without_files:
  "importRepo ev h None projectUuid w
     = \<lparr>o_heap = h, o_world = w, o_caught = None, o_exit = None, o_thrown = None\<rparr>
   \<and> importRepo ev h (Some []) projectUuid w
     = \<lparr>o_heap = h, o_world = w, o_caught = None, o_exit = None, o_thrown = None\<rparr>"
  by (simp add: importRepo_def)

section \<open>Derived attributes are not scoped by project\<close>

text \<open>
  C10. Let a run of \<open>importRepo\<close> on a non-empty file list complete without error, with
  any project scope. Then every node of the store, of whatever project, has its
  \<open>importCount\<close> and \<open>importedByCount\<close> recomputed from the relationships and its
  \<open>clusterId\<close> assigned by the run's community detection over the projection of the
  whole store. In particular a node that was in the store before the run, carries a
  projectUuid and has the path of no record of the batch (a node of another project) is
  still there with its own properties, except that these three attributes have been
  overwritten by this run.
\<close>

theorem derived_attributes_not_scoped:
  assumes run: "importRepo ev h (Some refs) projectUuid w = out"
      and nonempty: "refs \<noteq> []"
      and ok: "o_caught out = None"
  shows "(\<forall>f \<in> set (nodes (w_store (o_world out))).
            n_importCount f
              = Some (length (filter (\<lambda>e. fst e = nid f) (edges (w_store (o_world out)))))
          \<and> n_importedByCount f
              = Some (length (filter (\<lambda>e. snd e = nid f) (edges (w_store (o_world out)))))
          \<and> n_clusterId f
              = Some (e_louvain ev (project_graph (w_store (o_world out))) (nid f)))
       \<and> (\<forall>n \<in> set (nodes (w_store w)).
            n_path n \<notin> (\<lambda>a. f_path (h a)) ` set refs \<longrightarrow> n_projectUuid n \<noteq> None \<longrightarrow>
            n\<lparr>n_importCount
                 := Some (length (filter (\<lambda>e. fst e = nid n) (edges (w_store (o_world out))))),
              n_importedByCount
                 := Some (length (filter (\<lambda>e. snd e = nid n) (edges (w_store (o_world out))))),
              n_clusterId
                 := Some (e_louvain ev (project_graph (w_store (o_world out))) (nid n))\<rparr>
              \<in> set (nodes (w_store (o_world out))))"
proof -
  let ?files = "map (normalize_heap (e_now ev) (e_rnd ev) 0 h refs) refs"
  from run nonempty ok obtain w' where
    tb: "try_body ev ?files projectUuid (open_session w) = (w', None)"
    and fin: "w_store (o_world out) = w_store w'"
    by (rule importRepo_ok)
  from tb obtain w1 d2 d3 d4 d5 where
    s0: "ensureConstraint (open_session w) = (w1, None)" and
    s1: "upsertNodes ?files projectUuid (w_store w1) = Inr d2" and
    s2: "upsertEdgesStep ?files projectUuid d2 = Inr d3" and
    s3: "updateImportCounts d3 = Inr d4" and
    s4: "detectCommunities (e_louvain ev) d4 = (d5, None)" and
    s5: "w_store w' = d5"
    by (rule try_body_ok)
  let ?lv = "e_louvain ev"
  have d4: "d4 = d3\<lparr>nodes := map (recount d3) (nodes d3)\<rparr>"
    by (rule updateImportCounts_Inr(1)[OF s3])
  have d5: "d5 = d4\<lparr>catalog := (''importsGraph'', project_graph d4)
                               # filter (\<lambda>entry. fst entry \<noteq> ''importsGraph'') (catalog d4),
                  nodes := map (with_cluster ?lv (project_graph d4)) (nodes d4)\<rparr>"
    by (rule detectCommunities_ok[OF s4])
  have e5: "edges d5 = edges d3" unfolding d5 d4 by simp
  have n5: "nodes d5 = map (\<lambda>f. with_cluster ?lv (project_graph d4) (recount d3 f)) (nodes d3)"
    unfolding d5 d4 by (simp add: comp_def)
  have g5: "project_graph d5 = project_graph d4"
    unfolding d5 by (simp add: project_graph_def with_cluster_def comp_def)
  have final: "w_store (o_world out) = d5" using fin s5 by simp
  have shape: "with_cluster ?lv (project_graph d4) (recount d3 f)
        = f\<lparr>n_importCount := Some (length (filter (\<lambda>e. fst e = nid f) (edges d5))),
            n_importedByCount := Some (length (filter (\<lambda>e. snd e = nid f) (edges d5))),
            n_clusterId := Some (?lv (project_graph d5) (nid f))\<rparr>" for f
    by (simp add: with_cluster_def recount_def e5 g5)
  have a: "\<forall>f \<in> set (nodes d5).
            n_importCount f = Some (length (filter (\<lambda>e. fst e = nid f) (edges d5)))
          \<and> n_importedByCount f = Some (length (filter (\<lambda>e. snd e = nid f) (edges d5)))
          \<and> n_clusterId f = Some (?lv (project_graph d5) (nid f))"
    unfolding n5 by (auto simp: shape)
  have b: "\<forall>n \<in> set (nodes (w_store w)).
            n_path n \<notin> (\<lambda>a. f_path (h a)) ` set refs \<longrightarrow> n_projectUuid n \<noteq> None \<longrightarrow>
            n\<lparr>n_importCount := Some (length (filter (\<lambda>e. fst e = nid n) (edges d5))),
              n_importedByCount := Some (length (filter (\<lambda>e. snd e = nid n) (edges d5))),
              n_clusterId := Some (?lv (project_graph d5) (nid n))\<rparr> \<in> set (nodes d5)"
  proof (intro ballI impI)
    fix n assume n: "n \<in> set (nodes (w_store w))"
      and np: "n_path n \<notin> (\<lambda>a. f_path (h a)) ` set refs" and nu: "n_projectUuid n \<noteq> None"
    have "n \<in> set (nodes (w_store w1))"
      using n ensureConstraint_ok(1)[OF s0] by (simp add: open_session_def)
    moreover have "n_path n \<notin> f_path ` set ?files" using np by (auto simp: image_iff)
    ultimately have "n \<in> set (nodes d2)"
      using unwind_files_keeps[OF upsertNodes_cases(1)[OF s1]] by blast
    then have "n \<in> set (nodes d3)"
      using unwind_pairs_keeps[OF upsertEdgesStep_cases[OF s2] _ nu] by blast
    then have "with_cluster ?lv (project_graph d4) (recount d3 n) \<in> set (nodes d5)"
      unfolding n5 by simp
    then show "n\<lparr>n_importCount := Some (length (filter (\<lambda>e. fst e = nid n) (edges d5))),
              n_importedByCount := Some (length (filter (\<lambda>e. snd e = nid n) (edges d5))),
              n_clusterId := Some (?lv (project_graph d5) (nid n))\<rparr> \<in> set (nodes d5)"
      by (simp add: shape)
  qed
  show ?thesis unfolding final using a b by blast
qed

text \<open>
  The theorem at work: a P2 run on a store shared with P1 overwrites the counts 7 and 7
  and the cluster 99 of P1's node.
\<close>

theorem derived_attributes_not_scoped_witness:
  "o_caught (importRepo run_env two_file_heap (Some [0, 1]) ''P2'' shared_world) = None
   \<and> n_projectUuid stale_p1_node = Some ''P1''
   \<and> stale_p1_node\<lparr>n_importCount := Some 0, n_importedByCount := Some 0, n_clusterId := Some 0\<rparr>
       \<in> set (nodes (w_store (o_world
             (importRepo run_env two_file_heap (Some [0, 1]) ''P2'' shared_world))))"
proof -
  let ?out = "importRepo run_env two_file_heap (Some [0, 1]) ''P2'' shared_world"
  have ne: "[0, 1] \<noteq> ([] :: nat list)" by simp
  have n: "stale_p1_node \<in> set (nodes (w_store shared_world))"
    by (simp add: shared_world_def empty_store_def)
  have p: "n_path stale_p1_node \<notin> (\<lambda>a. f_path (two_file_heap a)) ` set [0, 1]"
    by (simp add: stale_p1_node_def new_node_def two_file_heap_def x_imports_y_def blank_record_def)
  have u: "n_projectUuid stale_p1_node = Some ''P1''" by (simp add: stale_p1_node_def)
  have i: "nid stale_p1_node = 0" by (simp add: stale_p1_node_def new_node_def)
  from derived_attributes_not_scoped[OF refl ne shared_run_ok] n p u
  have "stale_p1_node\<lparr>n_importCount
                 := Some (length (filter (\<lambda>e. fst e = nid stale_p1_node) (edges (w_store (o_world ?out))))),
              n_importedByCount
                 := Some (length (filter (\<lambda>e. snd e = nid stale_p1_node) (edges (w_store (o_world ?out))))),
              n_clusterId
                 := Some (e_louvain run_env (project_graph (w_store (o_world ?out))) (nid stale_p1_node))\<rparr>
              \<in> set (nodes (w_store (o_world ?out)))"
    by blast
  then have "stale_p1_node\<lparr>n_importCount := Some 0, n_importedByCount := Some 0, n_clusterId := Some 0\<rparr>
       \<in> set (nodes (w_store (o_world ?out)))"
    unfolding shared_run_edges i by (simp add: run_env_def each_alone_def)
  then show ?thesis using shared_run_ok u by blast
qed

end
